theory Spec2Isabelle
  imports Main
begin

section \<open>Shared vocabulary of the two widgets\<close>

text \<open>
  Both \<^verbatim>\<open>createTooltip\<close> (tooltip/tooltip.ts) and \<^verbatim>\<open>createMenu\<close> (menu/menu.ts) are
  closures over a handful of mutable variables and stores. Each closure is a record here,
  each inner function a state transformer. Calls that leave the closure (the placement
  service, focus, the \<^verbatim>\<open>open$\<close> store being written) are appended to an observation
  list, in call order.
\<close>

type_synonym elem = nat
  \<comment> \<open>an \<^verbatim>\<open>HTMLElement\<close> reference; only its identity matters\<close>

datatype cleanup_fn = Noop | PlacementCleanup nat
  \<comment> \<open>the function held by \<^verbatim>\<open>let cleanup\<close>: \<^verbatim>\<open>noop\<close>, or the function returned by the
      n-th call of \<^verbatim>\<open>getPlacement\<close>\<close>

datatype obs =
    GetPlacement nat elem elem
      \<comment> \<open>n-th call \<^verbatim>\<open>getPlacement(trigger, overlay, positioning)\<close>, returning \<open>PlacementCleanup n\<close>\<close>
  | CleanupCalled nat
      \<comment> \<open>the function \<open>PlacementCleanup n\<close> was invoked\<close>
  | OpenSet bool
      \<comment> \<open>\<^verbatim>\<open>open$.set(v)\<close>, or \<^verbatim>\<open>open$.update\<close> producing \<open>v\<close>\<close>
  | FocusCall elem
      \<comment> \<open>\<^verbatim>\<open>.focus()\<close> on that element\<close>

definition run_cleanup :: "cleanup_fn \<Rightarrow> obs list" where
  "run_cleanup c = (case c of Noop \<Rightarrow> [] | PlacementCleanup n \<Rightarrow> [CleanupCalled n])"

fun is_placement :: "obs \<Rightarrow> bool" where
  "is_placement (GetPlacement n t ov) = True"
| "is_placement (CleanupCalled n) = True"
| "is_placement (OpenSet v) = False"
| "is_placement (FocusCall e) = False"

fun is_attach :: "obs \<Rightarrow> bool" where
  "is_attach (GetPlacement n t ov) = True"
| "is_attach (CleanupCalled n) = False"
| "is_attach (OpenSet v) = False"
| "is_attach (FocusCall e) = False"

fun is_cleanup_call :: "obs \<Rightarrow> bool" where
  "is_cleanup_call (GetPlacement n t ov) = False"
| "is_cleanup_call (CleanupCalled n) = True"
| "is_cleanup_call (OpenSet v) = False"
| "is_cleanup_call (FocusCall e) = False"

fun is_focus :: "obs \<Rightarrow> bool" where
  "is_focus (GetPlacement n t ov) = False"
| "is_focus (CleanupCalled n) = False"
| "is_focus (OpenSet v) = False"
| "is_focus (FocusCall e) = True"

subsection \<open>The timer engine\<close>

text \<open>
  Modelled from the spec: \<^verbatim>\<open>createTimeout\<close> (module \<^verbatim>\<open>../timeout\<close>) is not among the
  sources. Section 4.1 of the specification gives its contract: \<^verbatim>\<open>start()\<close> schedules the
  action after the current delay, \<^verbatim>\<open>stop()\<close> cancels any pending schedule and is safe
  when nothing is pending, the delay store is read by the next \<^verbatim>\<open>start()\<close> only, and with
  \<^verbatim>\<open>immediate: false\<close> the action never runs inside \<^verbatim>\<open>start()\<close>: it runs in a later
  scheduling turn, also for a delay of 0. A timer is therefore the due time of its pending
  invocation, if any, and only the scheduler (\<open>advance\<close> below) runs an action.

  The specification says two things about \<^verbatim>\<open>start()\<close> on a pending timer: section 3 that
  the pending invocation is replaced, section 4.1 that the existing schedule is preserved.
  Both readings are kept, as a parameter.
\<close>

datatype start_policy = Preserve | Replace

type_synonym timer = "nat option"

definition timer_start :: "start_policy \<Rightarrow> nat \<Rightarrow> nat \<Rightarrow> timer \<Rightarrow> timer" where
  "timer_start pol clock delayMs t =
     (case t of
        None \<Rightarrow> Some (clock + delayMs)
      | Some due \<Rightarrow> (case pol of Preserve \<Rightarrow> Some due | Replace \<Rightarrow> Some (clock + delayMs)))"

definition timer_stop :: "timer \<Rightarrow> timer" where
  "timer_stop t = None"

definition timer_due :: "nat \<Rightarrow> timer \<Rightarrow> bool" where
  "timer_due target t = (case t of None \<Rightarrow> False | Some due \<Rightarrow> due \<le> target)"

section \<open>The tooltip: tooltip/tooltip.ts\<close>

record tooltip_config =
  cfg_open :: bool
  openDelay :: nat
  portal :: "string option"

definition default_tooltip_config :: tooltip_config where
  "default_tooltip_config = \<lparr>cfg_open = False, openDelay = 1000, portal = Some ''body''\<rparr>"

record tooltip =
  t_open :: bool                       \<comment> \<open>\<^verbatim>\<open>open$\<close>\<close>
  t_cleanup :: cleanup_fn              \<comment> \<open>\<^verbatim>\<open>let cleanup\<close>\<close>
  showTimer :: timer
  delayShowTimer :: nat                \<comment> \<open>the show timer's delay store\<close>
  hideTimer :: timer
  tooltipElement :: "elem option"      \<comment> \<open>\<^verbatim>\<open>tooltipElement$\<close>\<close>
  t_triggers :: "elem list"
    \<comment> \<open>the live \<^verbatim>\<open>useTooltipTrigger\<close> instances: listeners attached and subscribed,
        in subscription order\<close>
  t_overlays :: "elem list"            \<comment> \<open>the live \<^verbatim>\<open>useTooltip\<close> instances\<close>
  t_clock :: nat                       \<comment> \<open>milliseconds elapsed\<close>
  t_placements :: nat                  \<comment> \<open>calls of \<^verbatim>\<open>getPlacement\<close> so far\<close>
  t_trace :: "obs list"

definition createTooltip :: "tooltip_config \<Rightarrow> tooltip" where
  "createTooltip cfg =
     \<lparr>t_open = cfg_open cfg, t_cleanup = Noop, showTimer = None, delayShowTimer = 0,
      hideTimer = None, tooltipElement = None, t_triggers = [], t_overlays = [],
      t_clock = 0, t_placements = 0, t_trace = []\<rparr>"

definition t_call_cleanup :: "tooltip \<Rightarrow> tooltip" where
  \<comment> \<open>\<^verbatim>\<open>cleanup();\<close>\<close>
  "t_call_cleanup s = s\<lparr>t_trace := t_trace s @ run_cleanup (t_cleanup s)\<rparr>"

definition init :: "elem \<Rightarrow> elem \<Rightarrow> tooltip \<Rightarrow> tooltip" where
  "init triggerElement tooltipEl s =
     (let s1 = t_call_cleanup s; n = t_placements s1
      in s1\<lparr>t_cleanup := PlacementCleanup n, t_placements := Suc n,
            t_trace := t_trace s1 @ [GetPlacement n triggerElement tooltipEl]\<rparr>)"

definition t_on_values :: "elem \<Rightarrow> tooltip \<Rightarrow> tooltip" where
  \<comment> \<open>the callback subscribed to \<^verbatim>\<open>derived([open$, tooltipElement$], ...)\<close> by the trigger
      action of \<open>element\<close>\<close>
  "t_on_values element s =
     (case tooltipElement s of
        Some te \<Rightarrow> if t_open s then init element te s else t_call_cleanup s
      | None \<Rightarrow> t_call_cleanup s)"

definition t_notify :: "tooltip \<Rightarrow> tooltip" where
  \<comment> \<open>one of the two stores changed: every subscribed callback runs, in subscription order\<close>
  "t_notify s = fold t_on_values (t_triggers s) s"

text \<open>
  Modelled from the spec: \<^verbatim>\<open>writableEffect\<close> (module \<^verbatim>\<open>../util/store\<close>) is not among the
  sources. Per sections 2 and 9 of the specification it is a store with \<^verbatim>\<open>set\<close>,
  \<^verbatim>\<open>update\<close> and \<^verbatim>\<open>subscribe\<close> whose \<^verbatim>\<open>set\<close> computes the new value, invokes the effect
  hook with it and then notifies subscribers synchronously. As for a svelte
  \<^verbatim>\<open>writable\<close>, subscribers are notified only when the value differs from the stored one.
  The call itself is recorded as \<open>OpenSet v\<close> whether or not the value differs.
\<close>

definition t_open_set :: "bool \<Rightarrow> tooltip \<Rightarrow> tooltip" where
  "t_open_set v s =
     (let s1 = s\<lparr>t_trace := t_trace s @ [OpenSet v]\<rparr>
      in if t_open s1 = v then s1 else t_notify (s1\<lparr>t_open := v\<rparr>))"

definition startShowTimer :: "start_policy \<Rightarrow> tooltip \<Rightarrow> tooltip" where
  "startShowTimer pol s =
     s\<lparr>showTimer := timer_start pol (t_clock s) (delayShowTimer s) (showTimer s)\<rparr>"

definition stopShowTimer :: "tooltip \<Rightarrow> tooltip" where
  "stopShowTimer s = s\<lparr>showTimer := timer_stop (showTimer s)\<rparr>"

definition startHideTimer :: "start_policy \<Rightarrow> tooltip \<Rightarrow> tooltip" where
  \<comment> \<open>created with delay 500; its delay store is never taken out of \<^verbatim>\<open>createTimeout\<close>'s
      result, so the delay stays 500\<close>
  "startHideTimer pol s = s\<lparr>hideTimer := timer_start pol (t_clock s) 500 (hideTimer s)\<rparr>"

definition stopHideTimer :: "tooltip \<Rightarrow> tooltip" where
  "stopHideTimer s = s\<lparr>hideTimer := timer_stop (hideTimer s)\<rparr>"

definition tooltip_show :: "start_policy \<Rightarrow> nat \<Rightarrow> tooltip \<Rightarrow> tooltip" where
  \<comment> \<open>\<^verbatim>\<open>show(delay)\<close>; the source's default \<^verbatim>\<open>delay = 0\<close> is written out by each caller\<close>
  "tooltip_show pol delay s =
     startShowTimer pol ((stopHideTimer s)\<lparr>delayShowTimer := delay\<rparr>)"

definition tooltip_hide :: "start_policy \<Rightarrow> tooltip \<Rightarrow> tooltip" where
  "tooltip_hide pol s = startHideTimer pol (stopShowTimer s)"

definition tooltip_toggle :: "tooltip \<Rightarrow> tooltip" where
  "tooltip_toggle s = t_open_set (\<not> t_open s) s"

definition fire_show :: "tooltip \<Rightarrow> tooltip" where
  \<comment> \<open>the show timer's invocation comes due: \<^verbatim>\<open>() => open$.set(true)\<close>\<close>
  "fire_show s = t_open_set True (s\<lparr>showTimer := None\<rparr>)"

definition fire_hide :: "tooltip \<Rightarrow> tooltip" where
  \<comment> \<open>the hide timer's invocation comes due: \<^verbatim>\<open>() => open$.set(false)\<close>\<close>
  "fire_hide s = t_open_set False (s\<lparr>hideTimer := None\<rparr>)"

definition show_first :: "tooltip \<Rightarrow> bool" where
  "show_first s =
     (case showTimer s of
        None \<Rightarrow> False
      | Some a \<Rightarrow> (case hideTimer s of None \<Rightarrow> True | Some b \<Rightarrow> a \<le> b))"

definition advance :: "nat \<Rightarrow> tooltip \<Rightarrow> tooltip" where
  \<comment> \<open>\<open>dt\<close> milliseconds pass with no input: the scheduler runs, in order of their due
      times, the invocations that come due. Neither action starts a timer.\<close>
  "advance dt s =
     (let target = t_clock s + dt;
          dueS = timer_due target (showTimer s);
          dueH = timer_due target (hideTimer s);
          s1 = (if dueS \<and> dueH then
                  (if show_first s then fire_hide (fire_show s) else fire_show (fire_hide s))
                else if dueS then fire_show s
                else if dueH then fire_hide s
                else s)
      in s1\<lparr>t_clock := target\<rparr>)"

definition useTooltipTrigger :: "elem \<Rightarrow> tooltip \<Rightarrow> tooltip" where
  \<comment> \<open>the action body: five listeners, then \<^verbatim>\<open>subscribe\<close>, which calls the callback once
      with the current values\<close>
  "useTooltipTrigger element s = t_on_values element (s\<lparr>t_triggers := t_triggers s @ [element]\<rparr>)"

definition useTooltipTrigger_destroy :: "start_policy \<Rightarrow> elem \<Rightarrow> tooltip \<Rightarrow> tooltip" where
  \<comment> \<open>\<^verbatim>\<open>cleanup(); removeEvents(); unsubscribe(); hide();\<close>\<close>
  "useTooltipTrigger_destroy pol element s =
     (let s1 = t_call_cleanup s;
          s2 = s1\<lparr>t_triggers := remove1 element (t_triggers s1)\<rparr>
      in tooltip_hide pol s2)"

datatype trigger_event = Focus | Blur | PointerEnter | PointerLeave | Click

definition trigger_listener :: "start_policy \<Rightarrow> tooltip_config \<Rightarrow> trigger_event \<Rightarrow> tooltip \<Rightarrow> tooltip" where
  "trigger_listener pol cfg ev s =
     (case ev of
        Focus \<Rightarrow> tooltip_show pol 0 s
      | Blur \<Rightarrow> tooltip_hide pol s
      | PointerEnter \<Rightarrow> tooltip_show pol (openDelay cfg) s
      | PointerLeave \<Rightarrow> tooltip_hide pol s
      | Click \<Rightarrow> tooltip_hide pol s)"

definition dispatch_trigger ::
  "start_policy \<Rightarrow> tooltip_config \<Rightarrow> elem \<Rightarrow> trigger_event \<Rightarrow> tooltip \<Rightarrow> tooltip" where
  \<comment> \<open>the event reaches the listeners that live trigger actions attached to \<open>element\<close>\<close>
  "dispatch_trigger pol cfg element ev s =
     fold (\<lambda>_. trigger_listener pol cfg ev) (filter (\<lambda>e. e = element) (t_triggers s)) s"

definition tooltipElement_set :: "elem option \<Rightarrow> tooltip \<Rightarrow> tooltip" where
  \<comment> \<open>\<^verbatim>\<open>tooltipElement$.set\<close>, a svelte \<^verbatim>\<open>writable\<close>: an object value always notifies,
      \<^verbatim>\<open>null\<close> over \<^verbatim>\<open>null\<close> does not\<close>
  "tooltipElement_set v s =
     (if v = None \<and> tooltipElement s = None then s else t_notify (s\<lparr>tooltipElement := v\<rparr>))"

definition useTooltip :: "elem \<Rightarrow> tooltip \<Rightarrow> tooltip" where
  \<comment> \<open>\<^verbatim>\<open>usePortal\<close>, \<^verbatim>\<open>tooltipElement$.set(element)\<close>, two listeners; the portal moves the
      element and touches nothing of the closure\<close>
  "useTooltip element s = (tooltipElement_set (Some element) s)\<lparr>t_overlays := t_overlays s @ [element]\<rparr>"

definition useTooltip_destroy :: "elem \<Rightarrow> tooltip \<Rightarrow> tooltip" where
  \<comment> \<open>\<^verbatim>\<open>removeEvents(); portalAction?.destroy?.(); tooltipElement$.set(null);\<close>\<close>
  "useTooltip_destroy element s =
     tooltipElement_set None (s\<lparr>t_overlays := remove1 element (t_overlays s)\<rparr>)"

datatype overlay_event = OverlayPointerEnter | OverlayPointerLeave

definition overlay_listener :: "start_policy \<Rightarrow> overlay_event \<Rightarrow> tooltip \<Rightarrow> tooltip" where
  "overlay_listener pol ev s =
     (case ev of OverlayPointerEnter \<Rightarrow> tooltip_show pol 0 s | OverlayPointerLeave \<Rightarrow> tooltip_hide pol s)"

definition dispatch_overlay :: "start_policy \<Rightarrow> elem \<Rightarrow> overlay_event \<Rightarrow> tooltip \<Rightarrow> tooltip" where
  "dispatch_overlay pol element ev s =
     fold (\<lambda>_. overlay_listener pol ev) (filter (\<lambda>e. e = element) (t_overlays s)) s"

text \<open>Everything that can happen to a tooltip instance, as one step function.\<close>

datatype tooltip_event =
    Show nat | Hide | Toggle
  | Advance nat
  | MountTrigger elem | DestroyTrigger elem | OnTrigger elem trigger_event
  | MountTooltip elem | DestroyTooltip elem | OnTooltip elem overlay_event

fun t_step :: "start_policy \<Rightarrow> tooltip_config \<Rightarrow> tooltip_event \<Rightarrow> tooltip \<Rightarrow> tooltip" where
  "t_step pol cfg (Show d) s = tooltip_show pol d s"
| "t_step pol cfg Hide s = tooltip_hide pol s"
| "t_step pol cfg Toggle s = tooltip_toggle s"
| "t_step pol cfg (Advance dt) s = advance dt s"
| "t_step pol cfg (MountTrigger e) s = useTooltipTrigger e s"
| "t_step pol cfg (DestroyTrigger e) s = useTooltipTrigger_destroy pol e s"
| "t_step pol cfg (OnTrigger e ev) s = dispatch_trigger pol cfg e ev s"
| "t_step pol cfg (MountTooltip e) s = useTooltip e s"
| "t_step pol cfg (DestroyTooltip e) s = useTooltip_destroy e s"
| "t_step pol cfg (OnTooltip e ev) s = dispatch_overlay pol e ev s"

definition t_run :: "start_policy \<Rightarrow> tooltip_config \<Rightarrow> tooltip_event list \<Rightarrow> tooltip \<Rightarrow> tooltip" where
  "t_run pol cfg evs s = fold (t_step pol cfg) evs s"

fun calls_show :: "tooltip_event \<Rightarrow> bool" where
  \<comment> \<open>the events whose handler calls \<^verbatim>\<open>show\<close> or \<^verbatim>\<open>toggle\<close>\<close>
  "calls_show (Show d) = True"
| "calls_show Toggle = True"
| "calls_show (OnTrigger e Focus) = True"
| "calls_show (OnTrigger e PointerEnter) = True"
| "calls_show (OnTooltip e OverlayPointerEnter) = True"
| "calls_show _ = False"

definition t_new_obs :: "tooltip \<Rightarrow> tooltip \<Rightarrow> obs list" where
  \<comment> \<open>what \<open>s'\<close> has observed beyond \<open>s\<close>\<close>
  "t_new_obs s s' = drop (length (t_trace s)) (t_trace s')"

section \<open>The menu: menu/menu.ts\<close>

record item =
  item_id :: elem
  item_disabled :: bool      \<comment> \<open>\<^verbatim>\<open>'disabled' in item.dataset\<close>\<close>

record overlay_el =
  ov_id :: elem
  ov_menuitems :: "item list"
    \<comment> \<open>the descendants matching \<^verbatim>\<open>[role=menuitem]\<close>, in document order\<close>

definition getMenuItems :: "overlay_el \<Rightarrow> item list" where
  "getMenuItems parent = ov_menuitems parent"

datatype key = SPACE | ENTER | ESCAPE | TAB | DOWN_ARROW | UP_ARROW | OtherKey string

datatype task = FocusOverlay | ActivateFirst | ActivateLast
  \<comment> \<open>what waits behind an \<^verbatim>\<open>await tick()\<close>: the rest of the \<^verbatim>\<open>open$\<close> effect, and the
      rest of \<^verbatim>\<open>openMenuWithArrow\<close> for either arrow key\<close>

record menu =
  m_open :: bool                         \<comment> \<open>\<^verbatim>\<open>open$\<close>\<close>
  m_cleanup :: cleanup_fn                \<comment> \<open>\<^verbatim>\<open>let cleanup\<close>\<close>
  overlayElement :: "overlay_el option"  \<comment> \<open>\<^verbatim>\<open>overlayElement$\<close>\<close>
  items :: "item list"                   \<comment> \<open>the \<^verbatim>\<open>items\<close> store\<close>
  km_items :: "item list"                \<comment> \<open>the key manager's item list\<close>
  km_active :: "nat option"              \<comment> \<open>the key manager's active index; \<open>None\<close> is -1\<close>
  km_subscribed :: bool                  \<comment> \<open>the key manager still follows \<^verbatim>\<open>items\<close>\<close>
  m_triggers :: "elem list"              \<comment> \<open>the live \<^verbatim>\<open>useTrigger\<close> instances\<close>
  m_overlays :: "elem list"              \<comment> \<open>the live \<^verbatim>\<open>useMenu\<close> instances\<close>
  documentTrigger :: "elem option"       \<comment> \<open>\<^verbatim>\<open>document.getElementById(id)\<close>\<close>
  waiting :: "task list"                 \<comment> \<open>continuations behind \<^verbatim>\<open>await tick()\<close>, oldest first\<close>
  m_placements :: nat
  m_trace :: "obs list"

definition createMenu :: "bool \<Rightarrow> menu" where
  \<comment> \<open>the argument is the configuration's \<^verbatim>\<open>open\<close>, default \<^verbatim>\<open>false\<close>\<close>
  "createMenu open0 =
     \<lparr>m_open = open0, m_cleanup = Noop, overlayElement = None, items = [], km_items = [],
      km_active = None, km_subscribed = True, m_triggers = [], m_overlays = [],
      documentTrigger = None, waiting = [], m_placements = 0, m_trace = []\<rparr>"

subsection \<open>The key manager\<close>

text \<open>
  Modelled from the spec: \<^verbatim>\<open>listKeyManager\<close> (module \<^verbatim>\<open>../keyManager/listKeyManager\<close>) is
  not among the sources. Section 4.2 of the specification: \<^verbatim>\<open>setActiveItem\<close> with -1 or an
  index out of range clears the active item without calling \<^verbatim>\<open>onActivate\<close>;
  \<^verbatim>\<open>setFirstItemActive\<close> and \<^verbatim>\<open>setLastItemActive\<close> scan from their end, pass over the
  items the skip predicate holds for, and call \<^verbatim>\<open>onActivate\<close> on the first eligible item,
  doing nothing when there is none; \<^verbatim>\<open>destroy\<close> releases the subscription to the item
  list, which the manager follows from its construction on. The skip predicate and
  \<^verbatim>\<open>onActivate\<close> are the ones \<^verbatim>\<open>createMenu\<close> passes in. A new item list leaves the
  active index as it is; \<^verbatim>\<open>onKeydown\<close>, typeahead and the item labels are not modelled.
\<close>

definition skipPredicate :: "item \<Rightarrow> bool" where
  "skipPredicate it = item_disabled it"

definition onActivate :: "item \<Rightarrow> menu \<Rightarrow> menu" where
  \<comment> \<open>\<^verbatim>\<open>(item) => item.focus()\<close>\<close>
  "onActivate it s = s\<lparr>m_trace := m_trace s @ [FocusCall (item_id it)]\<rparr>"

fun first_eligible :: "item list \<Rightarrow> nat option" where
  "first_eligible [] = None"
| "first_eligible (x # xs) =
     (if skipPredicate x then map_option Suc (first_eligible xs) else Some 0)"

definition last_eligible :: "item list \<Rightarrow> nat option" where
  "last_eligible xs = map_option (\<lambda>i. length xs - 1 - i) (first_eligible (rev xs))"

definition activate :: "nat option \<Rightarrow> menu \<Rightarrow> menu" where
  "activate found s =
     (case found of
        None \<Rightarrow> s
      | Some i \<Rightarrow> onActivate (km_items s ! i) (s\<lparr>km_active := Some i\<rparr>))"

definition setFirstItemActive :: "menu \<Rightarrow> menu" where
  "setFirstItemActive s = activate (first_eligible (km_items s)) s"

definition setLastItemActive :: "menu \<Rightarrow> menu" where
  "setLastItemActive s = activate (last_eligible (km_items s)) s"

definition setActiveItem :: "int \<Rightarrow> menu \<Rightarrow> menu" where
  "setActiveItem i s =
     (if i < 0 \<or> int (length (km_items s)) \<le> i then s\<lparr>km_active := None\<rparr>
      else onActivate (km_items s ! nat i) (s\<lparr>km_active := Some (nat i)\<rparr>))"

definition keyManager_destroy :: "menu \<Rightarrow> menu" where
  "keyManager_destroy s = s\<lparr>km_subscribed := False\<rparr>"

definition items_set :: "item list \<Rightarrow> menu \<Rightarrow> menu" where
  \<comment> \<open>\<^verbatim>\<open>items.set(xs)\<close>: the key manager takes the new list while it is subscribed\<close>
  "items_set xs s =
     (let s1 = s\<lparr>items := xs\<rparr> in if km_subscribed s1 then s1\<lparr>km_items := xs\<rparr> else s1)"

subsection \<open>The closure's functions\<close>

definition m_call_cleanup :: "menu \<Rightarrow> menu" where
  "m_call_cleanup s = s\<lparr>m_trace := m_trace s @ run_cleanup (m_cleanup s)\<rparr>"

definition setupPlacement :: "elem \<Rightarrow> overlay_el \<Rightarrow> menu \<Rightarrow> menu" where
  \<comment> \<open>declared \<^verbatim>\<open>async\<close> but without an \<^verbatim>\<open>await\<close>: the body runs inside the call\<close>
  "setupPlacement triggerElement overlayEl s =
     (let s1 = m_call_cleanup s; n = m_placements s1
      in s1\<lparr>m_cleanup := PlacementCleanup n, m_placements := Suc n,
            m_trace := m_trace s1 @ [GetPlacement n triggerElement (ov_id overlayEl)]\<rparr>)"

definition m_detach :: "menu \<Rightarrow> menu" where
  \<comment> \<open>the \<^verbatim>\<open>else\<close> branch of the subscribed callback\<close>
  "m_detach s = m_call_cleanup (setActiveItem (- 1) s)"

definition m_on_values :: "elem \<Rightarrow> menu \<Rightarrow> menu" where
  \<comment> \<open>the callback subscribed to \<^verbatim>\<open>derived([open$, overlayElement$], ...)\<close> by the trigger
      action of \<open>element\<close>\<close>
  "m_on_values element s =
     (case overlayElement s of
        Some ov \<Rightarrow>
          if m_open s then items_set (getMenuItems ov) (setupPlacement element ov s)
          else m_detach s
      | None \<Rightarrow> m_detach s)"

definition m_notify :: "menu \<Rightarrow> menu" where
  "m_notify s = fold m_on_values (m_triggers s) s"

text \<open>
  Modelled from the spec: \<^verbatim>\<open>writableEffect\<close>, as for the tooltip. Here the effect hook is
  \<^verbatim>\<open>async (isOpen) => { if (isOpen) { await tick(); get(overlayElement$)?.focus(); } ... }\<close>,
  invoked by every \<^verbatim>\<open>set\<close> with the new value (section 9 of the specification): for
  \<open>True\<close> its rest waits behind \<^verbatim>\<open>tick()\<close>. The caller's \<^verbatim>\<open>onOpenChange\<close> is not observed.
\<close>

definition m_open_set :: "bool \<Rightarrow> menu \<Rightarrow> menu" where
  "m_open_set v s =
     (let s1 = s\<lparr>m_trace := m_trace s @ [OpenSet v]\<rparr>;
          s2 = (if v then s1\<lparr>waiting := waiting s1 @ [FocusOverlay]\<rparr> else s1)
      in if m_open s2 = v then s2 else m_notify (s2\<lparr>m_open := v\<rparr>))"

definition getTrigger :: "menu \<Rightarrow> elem option" where
  "getTrigger s = documentTrigger s"

definition menu_hide :: "bool \<Rightarrow> menu \<Rightarrow> menu" where
  \<comment> \<open>\<^verbatim>\<open>hide(returnFocus)\<close>; the default \<^verbatim>\<open>returnFocus = false\<close> is written out by each
      caller\<close>
  "menu_hide returnFocus s =
     (let s1 = m_open_set False s
      in if returnFocus then
           (case getTrigger s1 of
              None \<Rightarrow> s1
            | Some t \<Rightarrow> s1\<lparr>m_trace := m_trace s1 @ [FocusCall t]\<rparr>)
         else s1)"

definition menu_toggle :: "menu \<Rightarrow> menu" where
  "menu_toggle s = m_open_set (\<not> m_open s) s"

definition openMenuWithArrow :: "key \<Rightarrow> menu \<Rightarrow> menu" where
  \<comment> \<open>up to \<^verbatim>\<open>await tick()\<close>; the rest waits\<close>
  "openMenuWithArrow k s =
     (let s1 = m_open_set True s
      in s1\<lparr>waiting := waiting s1 @ [if k = DOWN_ARROW then ActivateFirst else ActivateLast]\<rparr>)"

definition useTrigger_handleKeyDown :: "key \<Rightarrow> menu \<Rightarrow> menu" where
  "useTrigger_handleKeyDown k s =
     (case k of
        SPACE \<Rightarrow> menu_toggle s
      | ENTER \<Rightarrow> menu_toggle s
      | ESCAPE \<Rightarrow> menu_hide False s
      | TAB \<Rightarrow> menu_hide False s
      | DOWN_ARROW \<Rightarrow> openMenuWithArrow k s
      | UP_ARROW \<Rightarrow> openMenuWithArrow k s
      | OtherKey _ \<Rightarrow> s)"

definition useTrigger :: "elem \<Rightarrow> menu \<Rightarrow> menu" where
  "useTrigger element s = m_on_values element (s\<lparr>m_triggers := m_triggers s @ [element]\<rparr>)"

definition useTrigger_destroy :: "elem \<Rightarrow> menu \<Rightarrow> menu" where
  \<comment> \<open>\<^verbatim>\<open>keyManager.destroy(); cleanup(); removeEvents(); unsubscribe(); hide();\<close>\<close>
  "useTrigger_destroy element s =
     (let s1 = m_call_cleanup (keyManager_destroy s);
          s2 = s1\<lparr>m_triggers := remove1 element (m_triggers s1)\<rparr>
      in menu_hide False s2)"

datatype trigger_input = TriggerClick | TriggerKeyDown key

definition m_trigger_listener :: "trigger_input \<Rightarrow> menu \<Rightarrow> menu" where
  "m_trigger_listener inp s =
     (case inp of TriggerClick \<Rightarrow> menu_toggle s | TriggerKeyDown k \<Rightarrow> useTrigger_handleKeyDown k s)"

definition m_dispatch_trigger :: "elem \<Rightarrow> trigger_input \<Rightarrow> menu \<Rightarrow> menu" where
  "m_dispatch_trigger element inp s =
     fold (\<lambda>_. m_trigger_listener inp) (filter (\<lambda>e. e = element) (m_triggers s)) s"

definition overlayElement_set :: "overlay_el option \<Rightarrow> menu \<Rightarrow> menu" where
  "overlayElement_set v s =
     (if v = None \<and> overlayElement s = None then s else m_notify (s\<lparr>overlayElement := v\<rparr>))"

definition useMenu :: "overlay_el \<Rightarrow> menu \<Rightarrow> menu" where
  \<comment> \<open>the portal, the click-outside action and the \<^verbatim>\<open>pointerover\<close> listener are left out:
      they write neither store at mount\<close>
  "useMenu element s =
     (overlayElement_set (Some element) s)\<lparr>m_overlays := m_overlays s @ [ov_id element]\<rparr>"

definition useMenu_destroy :: "overlay_el \<Rightarrow> menu \<Rightarrow> menu" where
  "useMenu_destroy element s =
     overlayElement_set None (s\<lparr>m_overlays := remove1 (ov_id element) (m_overlays s)\<rparr>)"

definition useMenu_handleKeyDown :: "(key \<Rightarrow> menu \<Rightarrow> menu) \<Rightarrow> key \<Rightarrow> menu \<Rightarrow> menu" where
  \<comment> \<open>\<^verbatim>\<open>keyManager.onKeydown\<close>, which the other keys go to, is a parameter\<close>
  "useMenu_handleKeyDown onKeydown k s = (if k = ESCAPE then menu_hide True s else onKeydown k s)"

definition m_dispatch_overlay_keydown ::
  "(key \<Rightarrow> menu \<Rightarrow> menu) \<Rightarrow> elem \<Rightarrow> key \<Rightarrow> menu \<Rightarrow> menu" where
  "m_dispatch_overlay_keydown onKeydown element k s =
     fold (\<lambda>_. useMenu_handleKeyDown onKeydown k) (filter (\<lambda>e. e = element) (m_overlays s)) s"

fun run_task :: "task \<Rightarrow> menu \<Rightarrow> menu" where
  "run_task FocusOverlay s =
     (case overlayElement s of
        None \<Rightarrow> s
      | Some ov \<Rightarrow> s\<lparr>m_trace := m_trace s @ [FocusCall (ov_id ov)]\<rparr>)"
| "run_task ActivateFirst s = setFirstItemActive s"
| "run_task ActivateLast s = setLastItemActive s"

definition m_tick :: "menu \<Rightarrow> menu" where
  \<comment> \<open>\<^verbatim>\<open>tick()\<close> resolves: the waiting continuations run, oldest first; none of them waits
      again\<close>
  "m_tick s = fold run_task (waiting s) (s\<lparr>waiting := []\<rparr>)"

definition m_new_obs :: "menu \<Rightarrow> menu \<Rightarrow> obs list" where
  "m_new_obs s s' = drop (length (m_trace s)) (m_trace s')"

subsection \<open>What the two factories return\<close>

definition createTooltip_returns :: "string list" where
  \<comment> \<open>the property names of the object literal returned by \<^verbatim>\<open>createTooltip\<close>\<close>
  "createTooltip_returns =
     [''useTooltipTrigger'', ''triggerAttrs'', ''useTooltip'', ''tooltipAttrs'', ''arrowAttrs'',
      ''open'', ''show'', ''hide'', ''toggle'']"

definition createMenu_returns :: "string list" where
  \<comment> \<open>the property names of the object literal returned by \<^verbatim>\<open>createMenu\<close>\<close>
  "createMenu_returns =
     [''useTrigger'', ''triggerAttrs'', ''useMenu'', ''menuAttrs'', ''itemAttrs'',
      ''separatorAttrs'', ''open'']"

section \<open>Notions the statements use\<close>

abbreviation open_commits :: "tooltip \<Rightarrow> nat" where
  "open_commits s \<equiv> count_list (t_trace s) (OpenSet True)"

definition t_combined :: "tooltip \<Rightarrow> bool" where
  \<comment> \<open>the condition of the subscribed callback: \<^verbatim>\<open>$open && $tooltipElement\<close>\<close>
  "t_combined s = (t_open s \<and> tooltipElement s \<noteq> None)"

definition m_combined :: "menu \<Rightarrow> bool" where
  \<comment> \<open>\<^verbatim>\<open>$open && $overlayElement\<close>\<close>
  "m_combined s = (m_open s \<and> overlayElement s \<noteq> None)"

definition t_cycles :: "nat \<Rightarrow> tooltip \<Rightarrow> tooltip" where
  \<comment> \<open>\<open>n\<close> times: \<^verbatim>\<open>toggle()\<close> and \<^verbatim>\<open>toggle()\<close> again\<close>
  "t_cycles n s = ((\<lambda>x. tooltip_toggle (tooltip_toggle x)) ^^ n) s"

definition m_cycles :: "nat \<Rightarrow> menu \<Rightarrow> menu" where
  \<comment> \<open>\<open>n\<close> times: \<^verbatim>\<open>toggle()\<close>, the waiting continuations, \<^verbatim>\<open>toggle()\<close>, the waiting
      continuations\<close>
  "m_cycles n s = ((\<lambda>x. m_tick (menu_toggle (m_tick (menu_toggle x)))) ^^ n) s"

definition cycle_obs :: "elem \<Rightarrow> elem \<Rightarrow> cleanup_fn \<Rightarrow> nat \<Rightarrow> nat \<Rightarrow> obs list" where
  \<comment> \<open>the placement calls of the \<open>i\<close>-th open/close cycle, counted from 0, when the stored
      cleanup was \<open>c0\<close> and \<open>p\<close> placements had been made before the first cycle\<close>
  "cycle_obs t ov c0 p i =
     run_cleanup (if i = 0 then c0 else PlacementCleanup (p + i - 1)) @
     [GetPlacement (p + i) t ov, CleanupCalled (p + i)]"

section \<open>Concrete instances\<close>

text \<open>
  A tooltip with the default configuration whose trigger action runs on element 1 and whose
  overlay action runs on element 2; the same after \<^verbatim>\<open>toggle()\<close>, and after a second
  \<^verbatim>\<open>toggle()\<close>. A menu whose trigger action runs on element 10, which carries the menu's
  id in the document, and whose overlay, element 20, holds four items, the first and the
  last disabled.
\<close>

definition tip_mounted :: tooltip where
  "tip_mounted = useTooltip 2 (useTooltipTrigger 1 (createTooltip default_tooltip_config))"

definition tip_open :: tooltip where
  "tip_open = tooltip_toggle tip_mounted"

definition tip_closed :: tooltip where
  "tip_closed = tooltip_toggle tip_open"

definition four_items :: "item list" where
  "four_items =
     [\<lparr>item_id = 21, item_disabled = True\<rparr>, \<lparr>item_id = 22, item_disabled = False\<rparr>,
      \<lparr>item_id = 23, item_disabled = False\<rparr>, \<lparr>item_id = 24, item_disabled = True\<rparr>]"

definition panel :: overlay_el where
  "panel = \<lparr>ov_id = 20, ov_menuitems = four_items\<rparr>"

definition menu_mounted :: menu where
  "menu_mounted = useMenu panel (useTrigger 10 ((createMenu False)\<lparr>documentTrigger := Some 10\<rparr>))"

definition menu_opened :: menu where
  "menu_opened = m_tick (menu_toggle menu_mounted)"

text \<open>
  The same menu before its overlay is mounted; and a menu whose overlay, element 30, holds
  one item, disabled, opened by \<^verbatim>\<open>toggle()\<close>.
\<close>

definition menu_trigger_only :: menu where
  "menu_trigger_only = useTrigger 10 ((createMenu False)\<lparr>documentTrigger := Some 10\<rparr>)"

definition disabled_panel :: overlay_el where
  "disabled_panel = \<lparr>ov_id = 30, ov_menuitems = [\<lparr>item_id = 31, item_disabled = True\<rparr>]\<rparr>"

definition menu_disabled_opened :: menu where
  "menu_disabled_opened = m_tick (menu_toggle (useMenu disabled_panel menu_trigger_only))"

section \<open>Tooltip: what each function leaves alone\<close>

lemma run_cleanup_no_open: "count_list (run_cleanup c) (OpenSet v) = 0"
  by (cases c) (simp_all add: run_cleanup_def)

lemma t_call_cleanup_fields:
  "showTimer (t_call_cleanup s) = showTimer s"
  "hideTimer (t_call_cleanup s) = hideTimer s"
  "delayShowTimer (t_call_cleanup s) = delayShowTimer s"
  "t_open (t_call_cleanup s) = t_open s"
  "tooltipElement (t_call_cleanup s) = tooltipElement s"
  "t_triggers (t_call_cleanup s) = t_triggers s"
  "t_overlays (t_call_cleanup s) = t_overlays s"
  "t_clock (t_call_cleanup s) = t_clock s"
  "t_cleanup (t_call_cleanup s) = t_cleanup s"
  "t_placements (t_call_cleanup s) = t_placements s"
  "t_trace (t_call_cleanup s) = t_trace s @ run_cleanup (t_cleanup s)"
  by (simp_all add: t_call_cleanup_def)

lemma init_fields:
  "showTimer (init t te s) = showTimer s"
  "hideTimer (init t te s) = hideTimer s"
  "delayShowTimer (init t te s) = delayShowTimer s"
  "t_open (init t te s) = t_open s"
  "tooltipElement (init t te s) = tooltipElement s"
  "t_triggers (init t te s) = t_triggers s"
  "t_overlays (init t te s) = t_overlays s"
  "t_clock (init t te s) = t_clock s"
  "t_cleanup (init t te s) = PlacementCleanup (t_placements s)"
  "t_placements (init t te s) = Suc (t_placements s)"
  "t_trace (init t te s) = t_trace s @ run_cleanup (t_cleanup s) @ [GetPlacement (t_placements s) t te]"
  by (simp_all add: init_def Let_def t_call_cleanup_fields)

lemma t_on_values_frame:
  "showTimer (t_on_values e s) = showTimer s"
  "hideTimer (t_on_values e s) = hideTimer s"
  "delayShowTimer (t_on_values e s) = delayShowTimer s"
  "t_open (t_on_values e s) = t_open s"
  "tooltipElement (t_on_values e s) = tooltipElement s"
  "t_triggers (t_on_values e s) = t_triggers s"
  "t_overlays (t_on_values e s) = t_overlays s"
  "t_clock (t_on_values e s) = t_clock s"
  by (simp_all add: t_on_values_def init_fields t_call_cleanup_fields split: option.split)

lemma t_on_values_opens:
  "count_list (t_trace (t_on_values e s)) (OpenSet v) = count_list (t_trace s) (OpenSet v)"
  by (simp add: t_on_values_def init_fields t_call_cleanup_fields run_cleanup_no_open split: option.split)

lemma fold_on_values_frame:
  "showTimer (fold t_on_values es s) = showTimer s \<and>
   hideTimer (fold t_on_values es s) = hideTimer s \<and>
   delayShowTimer (fold t_on_values es s) = delayShowTimer s \<and>
   t_open (fold t_on_values es s) = t_open s \<and>
   tooltipElement (fold t_on_values es s) = tooltipElement s \<and>
   t_triggers (fold t_on_values es s) = t_triggers s \<and>
   t_overlays (fold t_on_values es s) = t_overlays s \<and>
   t_clock (fold t_on_values es s) = t_clock s \<and>
   count_list (t_trace (fold t_on_values es s)) (OpenSet v) = count_list (t_trace s) (OpenSet v)"
  by (induction es arbitrary: s) (simp_all add: t_on_values_frame t_on_values_opens)

lemma t_notify_frame:
  "showTimer (t_notify s) = showTimer s"
  "hideTimer (t_notify s) = hideTimer s"
  "delayShowTimer (t_notify s) = delayShowTimer s"
  "t_open (t_notify s) = t_open s"
  "tooltipElement (t_notify s) = tooltipElement s"
  "t_triggers (t_notify s) = t_triggers s"
  "t_overlays (t_notify s) = t_overlays s"
  "t_clock (t_notify s) = t_clock s"
  "count_list (t_trace (t_notify s)) (OpenSet v) = count_list (t_trace s) (OpenSet v)"
  using fold_on_values_frame [of "t_triggers s" s v] by (simp_all add: t_notify_def)

lemma t_open_set_frame:
  "showTimer (t_open_set v s) = showTimer s"
  "hideTimer (t_open_set v s) = hideTimer s"
  "delayShowTimer (t_open_set v s) = delayShowTimer s"
  "t_open (t_open_set v s) = v"
  "tooltipElement (t_open_set v s) = tooltipElement s"
  "t_triggers (t_open_set v s) = t_triggers s"
  "t_overlays (t_open_set v s) = t_overlays s"
  "t_clock (t_open_set v s) = t_clock s"
  by (auto simp add: t_open_set_def Let_def t_notify_frame)

lemma t_open_set_opens:
  "count_list (t_trace (t_open_set v s)) (OpenSet w) =
     count_list (t_trace s) (OpenSet w) + (if v = w then 1 else 0)"
  by (simp add: t_open_set_def Let_def t_notify_frame)

section \<open>Tooltip: show and hide\<close>

lemma timer_stop_idle [simp]: "timer_stop t = None"
  by (simp add: timer_stop_def)

lemma tooltip_show_fields:
  "hideTimer (tooltip_show pol d s) = None"
  "delayShowTimer (tooltip_show pol d s) = d"
  "showTimer (tooltip_show pol d s) = timer_start pol (t_clock s) d (showTimer s)"
  "t_open (tooltip_show pol d s) = t_open s"
  "t_trace (tooltip_show pol d s) = t_trace s"
  "t_clock (tooltip_show pol d s) = t_clock s"
  "t_triggers (tooltip_show pol d s) = t_triggers s"
  "t_cleanup (tooltip_show pol d s) = t_cleanup s"
  "tooltipElement (tooltip_show pol d s) = tooltipElement s"
  by (simp_all add: tooltip_show_def startShowTimer_def stopHideTimer_def)

lemma tooltip_hide_fields:
  "showTimer (tooltip_hide pol s) = None"
  "hideTimer (tooltip_hide pol s) = timer_start pol (t_clock s) 500 (hideTimer s)"
  "delayShowTimer (tooltip_hide pol s) = delayShowTimer s"
  "t_open (tooltip_hide pol s) = t_open s"
  "t_trace (tooltip_hide pol s) = t_trace s"
  "t_clock (tooltip_hide pol s) = t_clock s"
  "t_triggers (tooltip_hide pol s) = t_triggers s"
  "t_cleanup (tooltip_hide pol s) = t_cleanup s"
  "tooltipElement (tooltip_hide pol s) = tooltipElement s"
  by (simp_all add: tooltip_hide_def startHideTimer_def stopShowTimer_def)

text \<open>
  C5. After every call of the tooltip's \<^verbatim>\<open>show\<close>, whatever its delay, the hide timer is
  not pending; after every call of \<^verbatim>\<open>hide\<close>, the show timer is not pending. This holds in
  every state and under both readings of \<^verbatim>\<open>start\<close>.
\<close>

theorem timer_mutual_exclusion:
  "hideTimer (tooltip_show pol d s) = None \<and> showTimer (tooltip_hide pol s) = None"
  by (simp add: tooltip_show_def tooltip_hide_def startShowTimer_def stopHideTimer_def
      startHideTimer_def stopShowTimer_def)

section \<open>Tooltip: timers\<close>

lemma fold_hide_quiet:
  "showTimer s = None \<Longrightarrow>
   showTimer (fold (\<lambda>_. tooltip_hide pol) xs s) = None \<and>
   t_trace (fold (\<lambda>_. tooltip_hide pol) xs s) = t_trace s"
  by (induction xs arbitrary: s) (simp_all add: tooltip_hide_fields)

lemma fire_hide_quiet:
  "showTimer (fire_hide s) = showTimer s"
  "open_commits (fire_hide s) = open_commits s"
  by (simp_all add: fire_hide_def t_open_set_frame t_open_set_opens)

lemma advance_quiet:
  "showTimer s = None \<Longrightarrow> showTimer (advance dt s) = None \<and> open_commits (advance dt s) = open_commits s"
  by (simp add: advance_def Let_def timer_due_def fire_hide_quiet)

lemma useTooltipTrigger_destroy_quiet:
  "showTimer (useTooltipTrigger_destroy pol e s) = None"
  "open_commits (useTooltipTrigger_destroy pol e s) = open_commits s"
  by (simp_all add: useTooltipTrigger_destroy_def Let_def tooltip_hide_fields t_call_cleanup_fields
      run_cleanup_no_open)

lemma tooltipElement_set_quiet:
  "showTimer (tooltipElement_set v s) = showTimer s"
  "open_commits (tooltipElement_set v s) = open_commits s"
  by (simp_all add: tooltipElement_set_def t_notify_frame)

lemma trigger_listener_eqs:
  "trigger_listener pol cfg Focus = tooltip_show pol 0"
  "trigger_listener pol cfg Blur = tooltip_hide pol"
  "trigger_listener pol cfg PointerEnter = tooltip_show pol (openDelay cfg)"
  "trigger_listener pol cfg PointerLeave = tooltip_hide pol"
  "trigger_listener pol cfg Click = tooltip_hide pol"
  by (rule ext, simp add: trigger_listener_def)+

lemma overlay_listener_eqs:
  "overlay_listener pol OverlayPointerEnter = tooltip_show pol 0"
  "overlay_listener pol OverlayPointerLeave = tooltip_hide pol"
  by (rule ext, simp add: overlay_listener_def)+

lemma quiet_step:
  assumes "\<not> calls_show ev" and "showTimer s = None"
  shows "showTimer (t_step pol cfg ev s) = None \<and> open_commits (t_step pol cfg ev s) = open_commits s"
proof (cases ev)
  case (Show d) with assms show ?thesis by simp
next
  case Hide then show ?thesis by (simp add: tooltip_hide_fields)
next
  case Toggle with assms show ?thesis by simp
next
  case (Advance dt) with assms advance_quiet show ?thesis by simp
next
  case (MountTrigger e)
  with assms show ?thesis
    by (simp add: useTooltipTrigger_def t_on_values_frame t_on_values_opens)
next
  case (DestroyTrigger e) then show ?thesis by (simp add: useTooltipTrigger_destroy_quiet)
next
  case (OnTrigger e tev)
  with assms show ?thesis
    by (cases tev) (simp_all add: dispatch_trigger_def trigger_listener_eqs fold_hide_quiet)
next
  case (MountTooltip e)
  with assms show ?thesis by (simp add: useTooltip_def tooltipElement_set_quiet)
next
  case (DestroyTooltip e)
  with assms show ?thesis by (simp add: useTooltip_destroy_def tooltipElement_set_quiet)
next
  case (OnTooltip e oev)
  with assms show ?thesis
    by (cases oev) (simp_all add: dispatch_overlay_def overlay_listener_eqs fold_hide_quiet)
qed

text \<open>
  The two timers are never pending together once one of them is idle, as at creation: the
  order \<open>advance\<close> gives to two invocations due in the same step is never used.
\<close>

lemma fold_show_timers:
  "xs \<noteq> [] \<Longrightarrow> hideTimer (fold (\<lambda>_. tooltip_show pol d) xs s) = None"
  by (induction xs arbitrary: s rule: rev_induct) (simp_all add: tooltip_show_fields)

lemma fold_hide_timers:
  "xs \<noteq> [] \<Longrightarrow> showTimer (fold (\<lambda>_. tooltip_hide pol) xs s) = None"
  by (induction xs arbitrary: s rule: rev_induct) (simp_all add: tooltip_hide_fields)

lemma advance_timers:
  "showTimer (advance dt s) = None \<or> showTimer (advance dt s) = showTimer s"
  "hideTimer (advance dt s) = None \<or> hideTimer (advance dt s) = hideTimer s"
  by (simp_all add: advance_def Let_def fire_show_def fire_hide_def t_open_set_frame)

lemma one_timer_at_most:
  assumes "showTimer s = None \<or> hideTimer s = None"
  shows "showTimer (t_step pol cfg ev s) = None \<or> hideTimer (t_step pol cfg ev s) = None"
proof (cases ev)
  case (Show d) then show ?thesis by (simp add: tooltip_show_fields)
next
  case Hide then show ?thesis by (simp add: tooltip_hide_fields)
next
  case Toggle with assms show ?thesis by (simp add: tooltip_toggle_def t_open_set_frame)
next
  case (Advance dt) with assms advance_timers [of dt s] show ?thesis by auto
next
  case (MountTrigger e) with assms show ?thesis
    by (simp add: useTooltipTrigger_def t_on_values_frame)
next
  case (DestroyTrigger e) then show ?thesis by (simp add: useTooltipTrigger_destroy_quiet)
next
  case (OnTrigger e tev)
  show ?thesis
  proof (cases "filter (\<lambda>x. x = e) (t_triggers s) = []")
    case True with assms OnTrigger show ?thesis by (simp add: dispatch_trigger_def)
  next
    case False with OnTrigger show ?thesis
      by (cases tev)
        (simp_all add: dispatch_trigger_def trigger_listener_eqs fold_show_timers fold_hide_timers)
  qed
next
  case (MountTooltip e) with assms show ?thesis
    by (simp add: useTooltip_def tooltipElement_set_def t_notify_frame)
next
  case (DestroyTooltip e) with assms show ?thesis
    by (simp add: useTooltip_destroy_def tooltipElement_set_def t_notify_frame)
next
  case (OnTooltip e oev)
  show ?thesis
  proof (cases "filter (\<lambda>x. x = e) (t_overlays s) = []")
    case True with assms OnTooltip show ?thesis by (simp add: dispatch_overlay_def)
  next
    case False with OnTooltip show ?thesis
      by (cases oev)
        (simp_all add: dispatch_overlay_def overlay_listener_eqs fold_show_timers fold_hide_timers)
  qed
qed

lemma quiet_run:
  "list_all (\<lambda>ev. \<not> calls_show ev) evs \<Longrightarrow> showTimer s = None \<Longrightarrow>
   showTimer (t_run pol cfg evs s) = None \<and> open_commits (t_run pol cfg evs s) = open_commits s"
proof (induction evs arbitrary: s)
  case Nil then show ?case by (simp add: t_run_def)
next
  case (Cons ev evs)
  from Cons.prems have q: "\<not> calls_show ev" and qs: "list_all (\<lambda>ev. \<not> calls_show ev) evs" by simp_all
  from quiet_step [OF q Cons.prems(2)] have
    a: "showTimer (t_step pol cfg ev s) = None" and b: "open_commits (t_step pol cfg ev s) = open_commits s" by simp_all
  from Cons.IH [OF qs a] b show ?case by (simp add: t_run_def)
qed

lemma show_then_wait:
  assumes "dt < D" and "showTimer s = None \<or> pol = Replace"
  shows "advance dt (tooltip_show pol D s) = (tooltip_show pol D s)\<lparr>t_clock := t_clock s + dt\<rparr>"
  using assms
  by (auto simp add: advance_def Let_def timer_due_def tooltip_show_fields timer_start_def
      split: option.split start_policy.split)

text \<open>
  C4. Take any state in which the show timer is idle, or the reading of \<^verbatim>\<open>start\<close> under
  which a new start replaces the pending one. \<^verbatim>\<open>show(D)\<close> itself writes nothing to
  \<^verbatim>\<open>open$\<close>, for every \<open>D\<close> including 0: the action is left to the scheduler. When
  \<^verbatim>\<open>hide()\<close> follows in the same turn, or after \<open>dt < D\<close> milliseconds, then whatever
  comes later that does not call \<^verbatim>\<open>show\<close> or \<^verbatim>\<open>toggle\<close> (time passing, blur, leave, click,
  mounting and unmounting) never sets \<^verbatim>\<open>open$\<close> to true: the number of \<open>OpenSet True\<close>
  observations stays what it was before \<^verbatim>\<open>show(D)\<close>. (Under the preserving reading a show
  timer that was already pending keeps its earlier due time; what it commits belongs to
  the earlier call, and \<open>quiet_run\<close> still covers everything after \<^verbatim>\<open>hide()\<close>.)
\<close>

theorem debounce_show_then_hide:
  assumes "list_all (\<lambda>ev. \<not> calls_show ev) evs"
    and "showTimer s = None \<or> pol = Replace"
  shows "t_trace (tooltip_show pol D s) = t_trace s \<and>
         t_open (tooltip_show pol D s) = t_open s \<and>
         count_list (t_trace (t_run pol cfg evs (tooltip_hide pol (tooltip_show pol D s)))) (OpenSet True)
           = count_list (t_trace s) (OpenSet True) \<and>
         (dt < D \<longrightarrow>
            count_list (t_trace (t_run pol cfg evs
                (tooltip_hide pol (advance dt (tooltip_show pol D s))))) (OpenSet True)
              = count_list (t_trace s) (OpenSet True))"
proof -
  have idle: "showTimer (tooltip_hide pol x) = None" for x by (simp add: tooltip_hide_fields)
  have a: "open_commits (t_run pol cfg evs (tooltip_hide pol (tooltip_show pol D s))) = open_commits s"
    using quiet_run [OF assms(1) idle, of pol cfg "tooltip_show pol D s"]
    by (simp add: tooltip_hide_fields tooltip_show_fields)
  have b: "open_commits (t_run pol cfg evs (tooltip_hide pol (advance dt (tooltip_show pol D s)))) = open_commits s"
    if "dt < D"
    using quiet_run [OF assms(1) idle, of pol cfg "advance dt (tooltip_show pol D s)"]
      show_then_wait [OF that assms(2)]
    by (simp add: tooltip_hide_fields tooltip_show_fields)
  from a b show ?thesis by (simp add: tooltip_show_fields)
qed

theorem debounce_show_then_hide_witness:
  "list_all (\<lambda>ev. \<not> calls_show ev) [Advance 2000, OnTrigger 1 Blur] \<and>
   (showTimer (useTooltip 2 (useTooltipTrigger 1 (createTooltip default_tooltip_config))) = None \<or> Preserve = Replace) \<and>
   (50::nat) < 1000 \<and>
   count_list (t_trace (t_run Preserve default_tooltip_config [Advance 2000, OnTrigger 1 Blur]
      (tooltip_hide Preserve (advance 50 (tooltip_show Preserve 1000
         (useTooltip 2 (useTooltipTrigger 1 (createTooltip default_tooltip_config)))))))) (OpenSet True) = 0"
proof -
  let ?s = "useTooltip 2 (useTooltipTrigger 1 (createTooltip default_tooltip_config))"
  have q: "list_all (\<lambda>ev. \<not> calls_show ev) [Advance 2000, OnTrigger 1 Blur]" by simp
  have i: "showTimer ?s = None \<or> Preserve = Replace"
    by (simp add: useTooltip_def tooltipElement_set_quiet useTooltipTrigger_def t_on_values_frame createTooltip_def)
  have t: "t_trace ?s = []"
    by (simp add: useTooltip_def tooltipElement_set_def t_notify_def useTooltipTrigger_def t_on_values_def
        createTooltip_def default_tooltip_config_def t_call_cleanup_def run_cleanup_def)
  from debounce_show_then_hide [OF q i, of 1000 default_tooltip_config 50] q i t show ?thesis by simp
qed

section \<open>Tooltip: event wiring\<close>

lemma filter_eq_single:
  "distinct xs \<Longrightarrow> e \<in> set xs \<Longrightarrow> filter (\<lambda>x. x = e) xs = [e]"
  by (induction xs) (auto simp add: filter_empty_conv)

lemma tooltip_show_eq:
  "tooltip_show pol d s =
     s\<lparr>hideTimer := None, delayShowTimer := d,
       showTimer := timer_start pol (t_clock s) d (showTimer s)\<rparr>"
  by (simp add: tooltip_show_def startShowTimer_def stopHideTimer_def)

lemma tooltip_hide_eq:
  "tooltip_hide pol s =
     s\<lparr>showTimer := None, hideTimer := timer_start pol (t_clock s) 500 (hideTimer s)\<rparr>"
  by (simp add: tooltip_hide_def startHideTimer_def stopShowTimer_def)

text \<open>
  C6. On an element carrying one live trigger action: \<^verbatim>\<open>focus\<close> is \<^verbatim>\<open>show\<close> with delay 0,
  \<^verbatim>\<open>pointerenter\<close> is \<^verbatim>\<open>show\<close> with the configured \<^verbatim>\<open>openDelay\<close> (1000 in the default
  configuration); both stop the hide timer, store the delay and start the show timer.
  \<^verbatim>\<open>pointerleave\<close>, \<^verbatim>\<open>blur\<close> and \<^verbatim>\<open>click\<close> are \<^verbatim>\<open>hide\<close>: the show timer is stopped and
  the hide timer started with delay 500. Starting an idle timer makes it due after exactly
  its delay; on a pending one the two readings of \<^verbatim>\<open>start\<close> differ as stated.
\<close>

theorem tooltip_trigger_wiring:
  assumes "e \<in> set (t_triggers s)" and "distinct (t_triggers s)"
  shows "dispatch_trigger pol cfg e Focus s =
           s\<lparr>hideTimer := None, delayShowTimer := 0,
             showTimer := timer_start pol (t_clock s) 0 (showTimer s)\<rparr> \<and>
         dispatch_trigger pol cfg e PointerEnter s =
           s\<lparr>hideTimer := None, delayShowTimer := openDelay cfg,
             showTimer := timer_start pol (t_clock s) (openDelay cfg) (showTimer s)\<rparr> \<and>
         openDelay default_tooltip_config = 1000 \<and>
         dispatch_trigger pol cfg e PointerLeave s =
           s\<lparr>showTimer := None, hideTimer := timer_start pol (t_clock s) 500 (hideTimer s)\<rparr> \<and>
         dispatch_trigger pol cfg e Blur s = dispatch_trigger pol cfg e PointerLeave s \<and>
         dispatch_trigger pol cfg e Click s = dispatch_trigger pol cfg e PointerLeave s \<and>
         timer_start pol clock delayMs None = Some (clock + delayMs) \<and>
         timer_start Replace clock delayMs t = Some (clock + delayMs) \<and>
         timer_start Preserve clock delayMs (Some due) = Some due"
proof -
  from assms have f: "filter (\<lambda>x. x = e) (t_triggers s) = [e]"
    by (simp add: filter_eq_single)
  have "timer_start Replace clock delayMs t = Some (clock + delayMs)"
    by (cases t) (simp_all add: timer_start_def)
  then show ?thesis
    by (simp add: dispatch_trigger_def f trigger_listener_def tooltip_show_eq tooltip_hide_eq
        default_tooltip_config_def timer_start_def)
qed

theorem tooltip_trigger_wiring_witness:
  "1 \<in> set (t_triggers (useTooltipTrigger 1 (createTooltip default_tooltip_config))) \<and>
   distinct (t_triggers (useTooltipTrigger 1 (createTooltip default_tooltip_config))) \<and>
   showTimer (dispatch_trigger Replace default_tooltip_config 1 PointerEnter
      (useTooltipTrigger 1 (createTooltip default_tooltip_config))) = Some 1000 \<and>
   showTimer (dispatch_trigger Replace default_tooltip_config 1 Focus
      (useTooltipTrigger 1 (createTooltip default_tooltip_config))) = Some 0 \<and>
   hideTimer (dispatch_trigger Replace default_tooltip_config 1 Click
      (useTooltipTrigger 1 (createTooltip default_tooltip_config))) = Some 500"
proof -
  have eq: "useTooltipTrigger 1 (createTooltip default_tooltip_config) =
      \<lparr>t_open = False, t_cleanup = Noop, showTimer = None, delayShowTimer = 0,
       hideTimer = None, tooltipElement = None, t_triggers = [1], t_overlays = [],
       t_clock = 0, t_placements = 0, t_trace = []\<rparr>"
    by (simp add: useTooltipTrigger_def t_on_values_def createTooltip_def
        default_tooltip_config_def t_call_cleanup_def run_cleanup_def)
  show ?thesis
    unfolding eq
    using tooltip_trigger_wiring [of 1 "\<lparr>t_open = False, t_cleanup = Noop, showTimer = None,
       delayShowTimer = 0, hideTimer = None, tooltipElement = None, t_triggers = [1],
       t_overlays = [], t_clock = 0, t_placements = 0, t_trace = []\<rparr>"
       Replace default_tooltip_config 0 0 None 0]
    by (simp add: timer_start_def)
qed

section \<open>Tooltip: teardown of the trigger action\<close>

lemma t_new_obs_append: "t_trace s' = t_trace s @ xs \<Longrightarrow> t_new_obs s s' = xs"
  by (simp add: t_new_obs_def)

lemma destroy_eq:
  "useTooltipTrigger_destroy pol e s =
     s\<lparr>t_trace := t_trace s @ run_cleanup (t_cleanup s),
       t_triggers := remove1 e (t_triggers s),
       showTimer := None,
       hideTimer := timer_start pol (t_clock s) 500 (hideTimer s)\<rparr>"
  by (simp add: useTooltipTrigger_destroy_def Let_def t_call_cleanup_def tooltip_hide_def
      startHideTimer_def stopShowTimer_def)

lemma timer_start_pending: "timer_start pol c d t \<noteq> None"
  by (simp add: timer_start_def split: option.split start_policy.split)

lemma advance_after_destroy:
  assumes "showTimer x = None" and "t_triggers x = []"
  shows "t_new_obs x (advance dt x) =
           (if timer_due (t_clock x + dt) (hideTimer x) then [OpenSet False] else [])"
  using assms
  by (simp add: advance_def Let_def timer_due_def fire_hide_def t_open_set_def t_notify_def
      t_new_obs_def)

section \<open>Tooltip: leaving the attached condition\<close>

lemma filter_placement_run_cleanup [simp]:
  "filter is_placement (run_cleanup c) = run_cleanup c"
  by (cases c) (simp_all add: run_cleanup_def)

lemma t_close_eq:
  assumes "t_triggers s = [e]" and "t_open s"
  shows "t_open_set False s =
           s\<lparr>t_open := False, t_trace := t_trace s @ OpenSet False # run_cleanup (t_cleanup s)\<rparr>"
  using assms
  by (simp add: t_open_set_def Let_def t_notify_def t_on_values_def t_call_cleanup_def
      split: option.split)

lemma t_open_again_eq:
  assumes "t_open s"
  shows "t_open_set True s = s\<lparr>t_trace := t_trace s @ [OpenSet True]\<rparr>"
  using assms by (simp add: t_open_set_def Let_def)

lemma t_reopen_eq:
  assumes "t_triggers s = [e]" and "\<not> t_open s" and "tooltipElement s = Some ov"
  shows "t_open_set True s =
           s\<lparr>t_open := True, t_cleanup := PlacementCleanup (t_placements s),
             t_placements := Suc (t_placements s),
             t_trace := t_trace s @ OpenSet True # run_cleanup (t_cleanup s) @
                        [GetPlacement (t_placements s) e ov]\<rparr>"
  using assms
  by (simp add: t_open_set_def Let_def t_notify_def t_on_values_def init_def t_call_cleanup_def)

lemma t_unmount_eq:
  assumes "t_triggers s = [e]" and "tooltipElement s \<noteq> None"
  shows "tooltipElement_set None s =
           s\<lparr>tooltipElement := None, t_trace := t_trace s @ run_cleanup (t_cleanup s)\<rparr>"
  using assms
  by (auto simp add: tooltipElement_set_def t_notify_def t_on_values_def t_call_cleanup_def)

lemma fold_show_combined:
  "t_combined (fold (\<lambda>_. tooltip_show pol d) xs s) = t_combined s"
  by (induction xs arbitrary: s) (simp_all add: t_combined_def tooltip_show_fields)

lemma fold_hide_combined:
  "t_combined (fold (\<lambda>_. tooltip_hide pol) xs s) = t_combined s"
  by (induction xs arbitrary: s) (simp_all add: t_combined_def tooltip_hide_fields)

lemma t_on_values_combined: "t_combined (t_on_values e s) = t_combined s"
  by (simp add: t_combined_def t_on_values_frame)

lemma advance_detach:
  assumes "t_triggers s = [e]" and "t_combined s" and "\<not> t_combined (advance dt s)"
  shows "filter is_placement (t_new_obs s (advance dt s)) = run_cleanup (t_cleanup s) \<and>
         t_cleanup (advance dt s) = t_cleanup s"
proof -
  from assms(2) obtain ov where o: "t_open s" and te: "tooltipElement s = Some ov"
    by (auto simp add: t_combined_def)
  let ?target = "t_clock s + dt"
  show ?thesis
  proof (cases "timer_due ?target (hideTimer s)")
    case False
    with assms(3) o te show ?thesis
      by (simp add: advance_def Let_def fire_show_def t_open_set_frame t_combined_def split: if_splits)
  next
    case dueH: True
    have fh: "fire_hide s = s\<lparr>hideTimer := None, t_open := False,
                t_trace := t_trace s @ OpenSet False # run_cleanup (t_cleanup s)\<rparr>"
      using t_close_eq [of "s\<lparr>hideTimer := None\<rparr>" e] assms(1) o by (simp add: fire_hide_def)
    show ?thesis
    proof (cases "timer_due ?target (showTimer s)")
      case False
      with dueH fh show ?thesis by (simp add: advance_def Let_def t_new_obs_def)
    next
      case dueS: True
      show ?thesis
      proof (cases "show_first s")
        case True
        have fs: "fire_show s = s\<lparr>showTimer := None, t_trace := t_trace s @ [OpenSet True]\<rparr>"
          using t_open_again_eq [of "s\<lparr>showTimer := None\<rparr>"] o by (simp add: fire_show_def)
        have "fire_hide (fire_show s) = s\<lparr>showTimer := None, hideTimer := None, t_open := False,
                t_trace := t_trace s @ OpenSet True # OpenSet False # run_cleanup (t_cleanup s)\<rparr>"
          using t_close_eq [of "s\<lparr>showTimer := None, t_trace := t_trace s @ [OpenSet True],
                 hideTimer := None\<rparr>" e] assms(1) o
          by (simp add: fs fire_hide_def)
        with dueH dueS True show ?thesis by (simp add: advance_def Let_def t_new_obs_def)
      next
        case False
        with dueH dueS assms(3) show ?thesis
          by (simp add: advance_def Let_def fire_show_def t_open_set_frame t_combined_def te fh)
      qed
    qed
  qed
qed

lemma t_step_detach:
  assumes "t_triggers s = [e]" and "t_combined s" and "\<not> t_combined (t_step pol cfg ev s)"
  shows "filter is_placement (t_new_obs s (t_step pol cfg ev s)) = run_cleanup (t_cleanup s) \<and>
         t_cleanup (t_step pol cfg ev s) = t_cleanup s"
proof (cases ev)
  case (Show d)
  with assms show ?thesis by (simp add: t_combined_def tooltip_show_fields)
next
  case Hide
  with assms show ?thesis by (simp add: t_combined_def tooltip_hide_fields)
next
  case Toggle
  with assms t_close_eq [of s e] show ?thesis
    by (simp add: tooltip_toggle_def t_combined_def t_new_obs_def)
next
  case (Advance dt)
  with assms advance_detach [of s e dt] show ?thesis by simp
next
  case (MountTrigger e')
  with assms show ?thesis
    by (simp add: useTooltipTrigger_def t_on_values_combined) (simp add: t_combined_def)
next
  case (DestroyTrigger e')
  with assms show ?thesis by (simp add: destroy_eq t_combined_def)
next
  case (OnTrigger e' tev)
  with assms show ?thesis
    by (cases tev)
      (simp_all add: dispatch_trigger_def trigger_listener_eqs fold_show_combined fold_hide_combined)
next
  case (MountTooltip e')
  with assms show ?thesis
    by (simp add: useTooltip_def tooltipElement_set_def t_notify_frame t_combined_def)
next
  case (DestroyTooltip e')
  with assms t_unmount_eq [of "s\<lparr>t_overlays := remove1 e' (t_overlays s)\<rparr>" e] show ?thesis
    by (simp add: useTooltip_destroy_def t_combined_def t_new_obs_def)
next
  case (OnTooltip e' oev)
  with assms show ?thesis
    by (cases oev)
      (simp_all add: dispatch_overlay_def overlay_listener_eqs fold_show_combined fold_hide_combined)
qed

section \<open>Tooltip: open and close cycles\<close>

lemma t_cycle_eq:
  assumes "t_triggers s = [t]" and "\<not> t_open s" and "tooltipElement s = Some ov"
  shows "tooltip_toggle (tooltip_toggle s) =
           s\<lparr>t_open := False, t_cleanup := PlacementCleanup (t_placements s),
             t_placements := Suc (t_placements s),
             t_trace := t_trace s @ OpenSet True # run_cleanup (t_cleanup s) @
                [GetPlacement (t_placements s) t ov, OpenSet False,
                 CleanupCalled (t_placements s)]\<rparr>"
proof -
  have a: "tooltip_toggle s =
           s\<lparr>t_open := True, t_cleanup := PlacementCleanup (t_placements s),
             t_placements := Suc (t_placements s),
             t_trace := t_trace s @ OpenSet True # run_cleanup (t_cleanup s) @
                        [GetPlacement (t_placements s) t ov]\<rparr>"
    using t_reopen_eq [OF assms] assms(2) by (simp add: tooltip_toggle_def)
  show ?thesis
    unfolding a using assms(1)
    by (simp add: tooltip_toggle_def t_open_set_def Let_def t_notify_def t_on_values_def
        t_call_cleanup_def run_cleanup_def assms(3))
qed

lemma cycle_obs_counts:
  "length (filter is_attach (concat (map (cycle_obs t ov c0 p) [0..<n]))) = n"
  "length (filter is_cleanup_call (concat (map (cycle_obs t ov c0 p) [0..<n]))) =
     2 * n - (if c0 = Noop then 1 else 0)"
proof -
  show "length (filter is_attach (concat (map (cycle_obs t ov c0 p) [0..<n]))) = n"
    by (induction n) (simp_all add: cycle_obs_def run_cleanup_def split: cleanup_fn.split)
  show "length (filter is_cleanup_call (concat (map (cycle_obs t ov c0 p) [0..<n]))) =
     2 * n - (if c0 = Noop then 1 else 0)"
  proof (induction n)
    case 0
    then show ?case by simp
  next
    case (Suc n)
    then show ?case
      by (cases n; cases c0) (simp_all add: cycle_obs_def run_cleanup_def)
  qed
qed

lemma attach_is_placement: "(\<lambda>x. is_placement x \<and> is_attach x) = is_attach"
proof
  fix x show "(is_placement x \<and> is_attach x) = is_attach x" by (cases x) simp_all
qed

lemma cleanup_is_placement: "(\<lambda>x. is_placement x \<and> is_cleanup_call x) = is_cleanup_call"
proof
  fix x show "(is_placement x \<and> is_cleanup_call x) = is_cleanup_call x" by (cases x) simp_all
qed

lemma t_cycles_inv:
  assumes "t_triggers s = [t]" and "\<not> t_open s" and "tooltipElement s = Some ov"
  shows "t_triggers (t_cycles n s) = [t] \<and> \<not> t_open (t_cycles n s) \<and>
         tooltipElement (t_cycles n s) = Some ov \<and>
         t_placements (t_cycles n s) = t_placements s + n \<and>
         t_cleanup (t_cycles n s) =
           (if n = 0 then t_cleanup s else PlacementCleanup (t_placements s + n - 1)) \<and>
         (\<exists>ys. t_trace (t_cycles n s) = t_trace s @ ys \<and>
               filter is_placement ys =
                 concat (map (cycle_obs t ov (t_cleanup s) (t_placements s)) [0..<n]))"
proof (induction n)
  case 0
  with assms show ?case by (simp add: t_cycles_def)
next
  case (Suc n)
  let ?x = "t_cycles n s"
  from Suc obtain ys where
    tr: "t_triggers ?x = [t]" and op: "\<not> t_open ?x" and te: "tooltipElement ?x = Some ov" and
    pl: "t_placements ?x = t_placements s + n" and
    cl: "t_cleanup ?x = (if n = 0 then t_cleanup s else PlacementCleanup (t_placements s + n - 1))" and
    ys: "t_trace ?x = t_trace s @ ys" and
    fl: "filter is_placement ys = concat (map (cycle_obs t ov (t_cleanup s) (t_placements s)) [0..<n])"
    by blast
  have step: "t_cycles (Suc n) s = tooltip_toggle (tooltip_toggle ?x)"
    by (simp add: t_cycles_def)
  note eq = t_cycle_eq [OF tr op te]
  have "t_trace (t_cycles (Suc n) s) = t_trace s @ (ys @ OpenSet True # run_cleanup (t_cleanup ?x) @
                [GetPlacement (t_placements ?x) t ov, OpenSet False,
                 CleanupCalled (t_placements ?x)])"
    by (simp add: step eq ys)
  moreover have "filter is_placement (ys @ OpenSet True # run_cleanup (t_cleanup ?x) @
                [GetPlacement (t_placements ?x) t ov, OpenSet False,
                 CleanupCalled (t_placements ?x)]) =
          concat (map (cycle_obs t ov (t_cleanup s) (t_placements s)) [0..<Suc n])"
    by (simp add: fl cycle_obs_def pl cl)
  ultimately have "\<exists>zs. t_trace (t_cycles (Suc n) s) = t_trace s @ zs \<and>
               filter is_placement zs =
                 concat (map (cycle_obs t ov (t_cleanup s) (t_placements s)) [0..<Suc n])"
    by blast
  moreover have "t_triggers (t_cycles (Suc n) s) = [t]" "\<not> t_open (t_cycles (Suc n) s)"
    "tooltipElement (t_cycles (Suc n) s) = Some ov"
    "t_placements (t_cycles (Suc n) s) = t_placements s + Suc n"
    "t_cleanup (t_cycles (Suc n) s) = PlacementCleanup (t_placements s + Suc n - 1)"
    using tr op te pl by (simp_all add: step eq)
  ultimately show ?case by simp
qed

lemma t_cycles_obs:
  assumes "t_triggers s = [t]" and "\<not> t_open s" and "tooltipElement s = Some ov"
  shows "filter is_placement (t_new_obs s (t_cycles n s)) =
           concat (map (cycle_obs t ov (t_cleanup s) (t_placements s)) [0..<n])"
  using t_cycles_inv [OF assms, of n] by (auto simp add: t_new_obs_def)

lemma t_cycles_counts:
  assumes "t_triggers s = [t]" and "\<not> t_open s" and "tooltipElement s = Some ov"
  shows "length (filter is_attach (t_new_obs s (t_cycles n s))) = n"
    and "length (filter is_cleanup_call (t_new_obs s (t_cycles n s))) =
           2 * n - (if t_cleanup s = Noop then 1 else 0)"
proof -
  have a: "filter is_attach (t_new_obs s (t_cycles n s)) =
           filter is_attach (filter is_placement (t_new_obs s (t_cycles n s)))"
    by (simp add: attach_is_placement)
  have c: "filter is_cleanup_call (t_new_obs s (t_cycles n s)) =
           filter is_cleanup_call (filter is_placement (t_new_obs s (t_cycles n s)))"
    by (simp add: cleanup_is_placement)
  show "length (filter is_attach (t_new_obs s (t_cycles n s))) = n"
    unfolding a t_cycles_obs [OF assms] by (rule cycle_obs_counts)
  show "length (filter is_cleanup_call (t_new_obs s (t_cycles n s))) =
           2 * n - (if t_cleanup s = Noop then 1 else 0)"
    unfolding c t_cycles_obs [OF assms] by (rule cycle_obs_counts)
qed

section \<open>Menu: what each function does to the state\<close>

lemma setActiveItem_none: "setActiveItem (- 1) s = s\<lparr>km_active := None\<rparr>"
  by (simp add: setActiveItem_def)

lemma m_detach_eq:
  "m_detach s = s\<lparr>km_active := None, m_trace := m_trace s @ run_cleanup (m_cleanup s)\<rparr>"
  by (simp add: m_detach_def setActiveItem_none m_call_cleanup_def)

lemma m_close_eq:
  assumes "m_triggers s = [e]" and "m_open s"
  shows "m_open_set False s =
           s\<lparr>m_open := False, km_active := None,
             m_trace := m_trace s @ OpenSet False # run_cleanup (m_cleanup s)\<rparr>"
  using assms
  by (simp add: m_open_set_def Let_def m_notify_def m_on_values_def m_detach_eq split: option.split)

lemma m_close_again_eq:
  assumes "\<not> m_open s"
  shows "m_open_set False s = s\<lparr>m_trace := m_trace s @ [OpenSet False]\<rparr>"
  using assms by (simp add: m_open_set_def Let_def)

lemma m_open_again_eq:
  assumes "m_open s"
  shows "m_open_set True s =
           s\<lparr>waiting := waiting s @ [FocusOverlay], m_trace := m_trace s @ [OpenSet True]\<rparr>"
  using assms by (simp add: m_open_set_def Let_def)

lemma m_reopen_eq:
  assumes "m_triggers s = [e]" and "\<not> m_open s" and "overlayElement s = Some ov"
  shows "m_open_set True s =
           s\<lparr>m_open := True, waiting := waiting s @ [FocusOverlay],
             m_cleanup := PlacementCleanup (m_placements s),
             m_placements := Suc (m_placements s),
             items := getMenuItems ov,
             km_items := (if km_subscribed s then getMenuItems ov else km_items s),
             m_trace := m_trace s @ OpenSet True # run_cleanup (m_cleanup s) @
                        [GetPlacement (m_placements s) e (ov_id ov)]\<rparr>"
  using assms
  by (simp add: m_open_set_def Let_def m_notify_def m_on_values_def setupPlacement_def
      m_call_cleanup_def items_set_def)


lemma m_unmount_eq:
  assumes "m_triggers s = [e]" and "overlayElement s \<noteq> None"
  shows "overlayElement_set None s =
           s\<lparr>overlayElement := None, km_active := None,
             m_trace := m_trace s @ run_cleanup (m_cleanup s)\<rparr>"
  using assms
  by (auto simp add: overlayElement_set_def m_notify_def m_on_values_def m_detach_eq)


lemma activate_frame:
  "m_open (activate f s) = m_open s"
  "overlayElement (activate f s) = overlayElement s"
  "m_triggers (activate f s) = m_triggers s"
  "m_overlays (activate f s) = m_overlays s"
  "m_cleanup (activate f s) = m_cleanup s"
  "m_placements (activate f s) = m_placements s"
  "km_items (activate f s) = km_items s"
  "km_subscribed (activate f s) = km_subscribed s"
  "waiting (activate f s) = waiting s"
  "documentTrigger (activate f s) = documentTrigger s"
  "km_active (activate f s) = (case f of None \<Rightarrow> km_active s | Some i \<Rightarrow> Some i)"
  "m_trace (activate f s) =
     m_trace s @ (case f of None \<Rightarrow> [] | Some i \<Rightarrow> [FocusCall (item_id (km_items s ! i))])"
  by (simp_all add: activate_def onActivate_def split: option.split)

lemma run_task_frame:
  "m_open (run_task k s) = m_open s"
  "overlayElement (run_task k s) = overlayElement s"
  "m_triggers (run_task k s) = m_triggers s"
  "m_overlays (run_task k s) = m_overlays s"
  "m_cleanup (run_task k s) = m_cleanup s"
  "m_placements (run_task k s) = m_placements s"
  "km_items (run_task k s) = km_items s"
  "km_subscribed (run_task k s) = km_subscribed s"
  "waiting (run_task k s) = waiting s"
  "documentTrigger (run_task k s) = documentTrigger s"
  by (cases k; simp add: setFirstItemActive_def setLastItemActive_def activate_frame
      split: option.split)+

lemma run_task_trace:
  "\<exists>ys. m_trace (run_task k s) = m_trace s @ ys \<and> filter is_placement ys = []"
  by (cases k) (auto simp add: setFirstItemActive_def setLastItemActive_def activate_frame
      split: option.split)

lemma fold_run_task_frame:
  "m_open (fold run_task ks s) = m_open s \<and>
   overlayElement (fold run_task ks s) = overlayElement s \<and>
   m_triggers (fold run_task ks s) = m_triggers s \<and>
   m_overlays (fold run_task ks s) = m_overlays s \<and>
   m_cleanup (fold run_task ks s) = m_cleanup s \<and>
   m_placements (fold run_task ks s) = m_placements s \<and>
   km_items (fold run_task ks s) = km_items s \<and>
   km_subscribed (fold run_task ks s) = km_subscribed s \<and>
   waiting (fold run_task ks s) = waiting s \<and>
   documentTrigger (fold run_task ks s) = documentTrigger s"
  by (induction ks arbitrary: s) (simp_all add: run_task_frame)

lemma fold_run_task_trace:
  "\<exists>ys. m_trace (fold run_task ks s) = m_trace s @ ys \<and> filter is_placement ys = []"
proof (induction ks arbitrary: s)
  case Nil
  then show ?case by simp
next
  case (Cons k ks)
  from run_task_trace [of k s] obtain ys where
    a: "m_trace (run_task k s) = m_trace s @ ys" "filter is_placement ys = []" by blast
  from Cons [of "run_task k s"] obtain zs where
    b: "m_trace (fold run_task ks (run_task k s)) = m_trace (run_task k s) @ zs"
       "filter is_placement zs = []" by blast
  from a b have "m_trace (fold run_task (k # ks) s) = m_trace s @ (ys @ zs) \<and>
      filter is_placement (ys @ zs) = []" by simp
  then show ?case by blast
qed

lemma m_tick_frame:
  "m_open (m_tick s) = m_open s"
  "overlayElement (m_tick s) = overlayElement s"
  "m_triggers (m_tick s) = m_triggers s"
  "m_overlays (m_tick s) = m_overlays s"
  "m_cleanup (m_tick s) = m_cleanup s"
  "m_placements (m_tick s) = m_placements s"
  "km_items (m_tick s) = km_items s"
  "km_subscribed (m_tick s) = km_subscribed s"
  "waiting (m_tick s) = []"
  "documentTrigger (m_tick s) = documentTrigger s"
  using fold_run_task_frame [of "waiting s" "s\<lparr>waiting := []\<rparr>"]
  by (simp_all add: m_tick_def)

lemma m_tick_trace:
  "\<exists>ys. m_trace (m_tick s) = m_trace s @ ys \<and> filter is_placement ys = []"
  using fold_run_task_trace [of "waiting s" "s\<lparr>waiting := []\<rparr>"]
  by (simp add: m_tick_def)

section \<open>Menu: cycles and detaching\<close>

lemma m_cycle_step:
  assumes tr: "m_triggers x = [t]" and cl: "\<not> m_open x" and ov: "overlayElement x = Some ov"
  defines "x' \<equiv> m_tick (menu_toggle (m_tick (menu_toggle x)))"
  shows "m_triggers x' = [t] \<and> \<not> m_open x' \<and> overlayElement x' = Some ov \<and>
         m_placements x' = Suc (m_placements x) \<and>
         m_cleanup x' = PlacementCleanup (m_placements x) \<and>
         (\<exists>zs. m_trace x' = m_trace x @ zs \<and>
               filter is_placement zs =
                 run_cleanup (m_cleanup x) @
                 [GetPlacement (m_placements x) t (ov_id ov), CleanupCalled (m_placements x)])"
proof -
  let ?x1 = "menu_toggle x"
  let ?x2 = "m_tick ?x1"
  let ?x3 = "menu_toggle ?x2"
  have x1: "?x1 = x\<lparr>m_open := True, waiting := waiting x @ [FocusOverlay],
             m_cleanup := PlacementCleanup (m_placements x),
             m_placements := Suc (m_placements x),
             items := getMenuItems ov,
             km_items := (if km_subscribed x then getMenuItems ov else km_items x),
             m_trace := m_trace x @ OpenSet True # run_cleanup (m_cleanup x) @
                        [GetPlacement (m_placements x) t (ov_id ov)]\<rparr>"
    using m_reopen_eq [OF tr cl ov] cl by (simp add: menu_toggle_def)
  have f2: "m_triggers ?x2 = [t]" "m_open ?x2" "overlayElement ?x2 = Some ov"
    "m_placements ?x2 = Suc (m_placements x)" "m_cleanup ?x2 = PlacementCleanup (m_placements x)"
    by (simp_all add: m_tick_frame) (simp_all add: x1 tr ov)
  from m_tick_trace [of ?x1] obtain ys where
    ys: "m_trace ?x2 = m_trace ?x1 @ ys" "filter is_placement ys = []" by blast
  have x3: "?x3 = ?x2\<lparr>m_open := False, km_active := None,
             m_trace := m_trace ?x2 @ OpenSet False # run_cleanup (m_cleanup ?x2)\<rparr>"
    using m_close_eq [OF f2(1) f2(2)] f2(2) by (simp add: menu_toggle_def)
  from m_tick_trace [of ?x3] obtain zs where
    zs: "m_trace (m_tick ?x3) = m_trace ?x3 @ zs" "filter is_placement zs = []" by blast
  have f4: "m_triggers x' = [t]" "\<not> m_open x'" "overlayElement x' = Some ov"
    "m_placements x' = Suc (m_placements x)" "m_cleanup x' = PlacementCleanup (m_placements x)"
    unfolding x'_def by (simp_all add: m_tick_frame) (simp_all add: x3 f2)
  have t3: "m_trace ?x3 = m_trace ?x2 @ [OpenSet False, CleanupCalled (m_placements x)]"
    by (simp add: x3 f2 run_cleanup_def)
  have t1: "m_trace ?x1 = m_trace x @ OpenSet True # run_cleanup (m_cleanup x) @
                        [GetPlacement (m_placements x) t (ov_id ov)]"
    by (simp add: x1)
  have "m_trace x' = m_trace x @ (OpenSet True # run_cleanup (m_cleanup x) @
          [GetPlacement (m_placements x) t (ov_id ov)] @ ys @
          [OpenSet False, CleanupCalled (m_placements x)] @ zs)"
    unfolding x'_def by (simp add: zs(1) t3 ys(1) t1)
  moreover have "filter is_placement (OpenSet True # run_cleanup (m_cleanup x) @
          [GetPlacement (m_placements x) t (ov_id ov)] @ ys @
          [OpenSet False, CleanupCalled (m_placements x)] @ zs) =
        run_cleanup (m_cleanup x) @
          [GetPlacement (m_placements x) t (ov_id ov), CleanupCalled (m_placements x)]"
    by (simp add: ys(2) zs(2))
  ultimately have "\<exists>zs. m_trace x' = m_trace x @ zs \<and>
               filter is_placement zs =
                 run_cleanup (m_cleanup x) @
                 [GetPlacement (m_placements x) t (ov_id ov), CleanupCalled (m_placements x)]"
    by blast
  with f4 show ?thesis by simp
qed

lemma m_cycles_inv:
  assumes "m_triggers s = [t]" and "\<not> m_open s" and "overlayElement s = Some ov"
  shows "m_triggers (m_cycles n s) = [t] \<and> \<not> m_open (m_cycles n s) \<and>
         overlayElement (m_cycles n s) = Some ov \<and>
         m_placements (m_cycles n s) = m_placements s + n \<and>
         m_cleanup (m_cycles n s) =
           (if n = 0 then m_cleanup s else PlacementCleanup (m_placements s + n - 1)) \<and>
         (\<exists>ys. m_trace (m_cycles n s) = m_trace s @ ys \<and>
               filter is_placement ys =
                 concat (map (cycle_obs t (ov_id ov) (m_cleanup s) (m_placements s)) [0..<n]))"
proof (induction n)
  case 0
  with assms show ?case by (simp add: m_cycles_def)
next
  case (Suc n)
  let ?x = "m_cycles n s"
  from Suc obtain ys where
    tr: "m_triggers ?x = [t]" and op: "\<not> m_open ?x" and te: "overlayElement ?x = Some ov" and
    pl: "m_placements ?x = m_placements s + n" and
    cl: "m_cleanup ?x = (if n = 0 then m_cleanup s else PlacementCleanup (m_placements s + n - 1))" and
    ys: "m_trace ?x = m_trace s @ ys" and
    fl: "filter is_placement ys =
           concat (map (cycle_obs t (ov_id ov) (m_cleanup s) (m_placements s)) [0..<n])"
    by blast
  have step: "m_cycles (Suc n) s = m_tick (menu_toggle (m_tick (menu_toggle ?x)))"
    by (simp add: m_cycles_def)
  from m_cycle_step [OF tr op te] obtain zs where
    f: "m_triggers (m_cycles (Suc n) s) = [t]" "\<not> m_open (m_cycles (Suc n) s)"
       "overlayElement (m_cycles (Suc n) s) = Some ov"
       "m_placements (m_cycles (Suc n) s) = Suc (m_placements ?x)"
       "m_cleanup (m_cycles (Suc n) s) = PlacementCleanup (m_placements ?x)" and
    zs: "m_trace (m_cycles (Suc n) s) = m_trace ?x @ zs"
        "filter is_placement zs = run_cleanup (m_cleanup ?x) @
           [GetPlacement (m_placements ?x) t (ov_id ov), CleanupCalled (m_placements ?x)]"
    unfolding step by blast
  have "m_trace (m_cycles (Suc n) s) = m_trace s @ (ys @ zs)"
    by (simp add: zs(1) ys)
  moreover have "filter is_placement (ys @ zs) =
      concat (map (cycle_obs t (ov_id ov) (m_cleanup s) (m_placements s)) [0..<Suc n])"
    by (simp add: fl zs(2) cycle_obs_def pl cl)
  ultimately have "\<exists>ws. m_trace (m_cycles (Suc n) s) = m_trace s @ ws \<and>
       filter is_placement ws =
         concat (map (cycle_obs t (ov_id ov) (m_cleanup s) (m_placements s)) [0..<Suc n])"
    by blast
  with f pl show ?case by simp
qed

lemma m_cycles_obs:
  assumes "m_triggers s = [t]" and "\<not> m_open s" and "overlayElement s = Some ov"
  shows "filter is_placement (m_new_obs s (m_cycles n s)) =
           concat (map (cycle_obs t (ov_id ov) (m_cleanup s) (m_placements s)) [0..<n])"
  using m_cycles_inv [OF assms, of n] by (auto simp add: m_new_obs_def)

lemma m_cycles_counts:
  assumes "m_triggers s = [t]" and "\<not> m_open s" and "overlayElement s = Some ov"
  shows "length (filter is_attach (m_new_obs s (m_cycles n s))) = n"
    and "length (filter is_cleanup_call (m_new_obs s (m_cycles n s))) =
           2 * n - (if m_cleanup s = Noop then 1 else 0)"
proof -
  have a: "filter is_attach (m_new_obs s (m_cycles n s)) =
           filter is_attach (filter is_placement (m_new_obs s (m_cycles n s)))"
    by (simp add: attach_is_placement)
  have c: "filter is_cleanup_call (m_new_obs s (m_cycles n s)) =
           filter is_cleanup_call (filter is_placement (m_new_obs s (m_cycles n s)))"
    by (simp add: cleanup_is_placement)
  show "length (filter is_attach (m_new_obs s (m_cycles n s))) = n"
    unfolding a m_cycles_obs [OF assms] by (rule cycle_obs_counts)
  show "length (filter is_cleanup_call (m_new_obs s (m_cycles n s))) =
           2 * n - (if m_cleanup s = Noop then 1 else 0)"
    unfolding c m_cycles_obs [OF assms] by (rule cycle_obs_counts)
qed

lemma menu_hide_detach:
  assumes "m_triggers m = [e]" and "m_combined m"
  shows "\<not> m_combined (menu_hide rf m) \<and>
         filter is_placement (m_new_obs m (menu_hide rf m)) = run_cleanup (m_cleanup m) \<and>
         m_cleanup (menu_hide rf m) = m_cleanup m"
  using assms m_close_eq [of m e]
  by (simp add: menu_hide_def Let_def m_combined_def m_new_obs_def getTrigger_def
      split: option.split)

lemma menu_toggle_detach:
  assumes "m_triggers m = [e]" and "m_combined m"
  shows "\<not> m_combined (menu_toggle m) \<and>
         filter is_placement (m_new_obs m (menu_toggle m)) = run_cleanup (m_cleanup m) \<and>
         m_cleanup (menu_toggle m) = m_cleanup m"
  using assms m_close_eq [of m e]
  by (simp add: menu_toggle_def m_combined_def m_new_obs_def)

lemma useMenu_destroy_detach:
  assumes "m_triggers m = [e]" and "m_combined m"
  shows "\<not> m_combined (useMenu_destroy ov m) \<and>
         filter is_placement (m_new_obs m (useMenu_destroy ov m)) = run_cleanup (m_cleanup m) \<and>
         m_cleanup (useMenu_destroy ov m) = m_cleanup m"
  using assms m_unmount_eq [of "m\<lparr>m_overlays := remove1 (ov_id ov) (m_overlays m)\<rparr>" e]
  by (simp add: useMenu_destroy_def m_combined_def m_new_obs_def)

lemma useTrigger_destroy_single:
  assumes "m_triggers m = [e]"
  shows "filter is_placement (m_new_obs m (useTrigger_destroy e m)) = run_cleanup (m_cleanup m) \<and>
         m_cleanup (useTrigger_destroy e m) = m_cleanup m"
  using assms
  by (simp add: useTrigger_destroy_def Let_def keyManager_destroy_def m_call_cleanup_def
      menu_hide_def m_open_set_def m_notify_def m_new_obs_def)

section \<open>The concrete instances, evaluated\<close>

lemma tip_mounted_eq:
  "tip_mounted =
     \<lparr>t_open = False, t_cleanup = Noop, showTimer = None, delayShowTimer = 0,
      hideTimer = None, tooltipElement = Some 2, t_triggers = [1], t_overlays = [2],
      t_clock = 0, t_placements = 0, t_trace = []\<rparr>"
  by (simp add: tip_mounted_def useTooltip_def tooltipElement_set_def t_notify_def
      useTooltipTrigger_def t_on_values_def createTooltip_def default_tooltip_config_def
      t_call_cleanup_def run_cleanup_def)

lemma tip_open_eq:
  "tip_open =
     \<lparr>t_open = True, t_cleanup = PlacementCleanup 0, showTimer = None, delayShowTimer = 0,
      hideTimer = None, tooltipElement = Some 2, t_triggers = [1], t_overlays = [2],
      t_clock = 0, t_placements = 1, t_trace = [OpenSet True, GetPlacement 0 1 2]\<rparr>"
  unfolding tip_open_def tip_mounted_eq
  by (simp add: tooltip_toggle_def t_open_set_def t_notify_def t_on_values_def init_def
      t_call_cleanup_def run_cleanup_def Let_def)

lemma tip_closed_eq:
  "tip_closed =
     \<lparr>t_open = False, t_cleanup = PlacementCleanup 0, showTimer = None, delayShowTimer = 0,
      hideTimer = None, tooltipElement = Some 2, t_triggers = [1], t_overlays = [2],
      t_clock = 0, t_placements = 1,
      t_trace = [OpenSet True, GetPlacement 0 1 2, OpenSet False, CleanupCalled 0]\<rparr>"
  unfolding tip_closed_def tip_open_eq
  by (simp add: tooltip_toggle_def t_open_set_def t_notify_def t_on_values_def init_def
      t_call_cleanup_def run_cleanup_def Let_def)

lemma tip_two_cycles_eq:
  "t_cycles 2 tip_mounted =
     \<lparr>t_open = False, t_cleanup = PlacementCleanup 1, showTimer = None, delayShowTimer = 0,
      hideTimer = None, tooltipElement = Some 2, t_triggers = [1], t_overlays = [2],
      t_clock = 0, t_placements = 2,
      t_trace = [OpenSet True, GetPlacement 0 1 2, OpenSet False, CleanupCalled 0,
                 OpenSet True, CleanupCalled 0, GetPlacement 1 1 2, OpenSet False,
                 CleanupCalled 1]\<rparr>"
proof -
  have "t_cycles 2 tip_mounted = tooltip_toggle (tooltip_toggle tip_closed)"
    by (simp add: t_cycles_def numeral_2_eq_2 tip_closed_def tip_open_def)
  then show ?thesis
    unfolding tip_closed_eq
    by (simp add: tooltip_toggle_def t_open_set_def t_notify_def t_on_values_def init_def
        t_call_cleanup_def run_cleanup_def Let_def)
qed

lemma menu_mounted_eq:
  "menu_mounted =
     \<lparr>m_open = False, m_cleanup = Noop, overlayElement = Some panel, items = [],
      km_items = [], km_active = None, km_subscribed = True, m_triggers = [10],
      m_overlays = [20], documentTrigger = Some 10, waiting = [], m_placements = 0,
      m_trace = []\<rparr>"
  by (simp add: menu_mounted_def useMenu_def overlayElement_set_def m_notify_def useTrigger_def
      m_on_values_def createMenu_def m_detach_eq run_cleanup_def panel_def)

lemma menu_opened_eq:
  "menu_opened =
     \<lparr>m_open = True, m_cleanup = PlacementCleanup 0, overlayElement = Some panel,
      items = four_items, km_items = four_items, km_active = None, km_subscribed = True,
      m_triggers = [10], m_overlays = [20], documentTrigger = Some 10, waiting = [],
      m_placements = 1, m_trace = [OpenSet True, GetPlacement 0 10 20, FocusCall 20]\<rparr>"
  unfolding menu_opened_def menu_mounted_eq
  by (simp add: menu_toggle_def m_open_set_def Let_def m_notify_def m_on_values_def
      setupPlacement_def m_call_cleanup_def items_set_def getMenuItems_def run_cleanup_def
      m_tick_def panel_def)

lemma menu_trigger_only_eq:
  "menu_trigger_only =
     \<lparr>m_open = False, m_cleanup = Noop, overlayElement = None, items = [],
      km_items = [], km_active = None, km_subscribed = True, m_triggers = [10],
      m_overlays = [], documentTrigger = Some 10, waiting = [], m_placements = 0,
      m_trace = []\<rparr>"
  by (simp add: menu_trigger_only_def useTrigger_def m_on_values_def createMenu_def
      m_detach_eq run_cleanup_def)

lemma menu_disabled_opened_eq:
  "menu_disabled_opened =
     \<lparr>m_open = True, m_cleanup = PlacementCleanup 0, overlayElement = Some disabled_panel,
      items = [\<lparr>item_id = 31, item_disabled = True\<rparr>],
      km_items = [\<lparr>item_id = 31, item_disabled = True\<rparr>], km_active = None,
      km_subscribed = True, m_triggers = [10], m_overlays = [30], documentTrigger = Some 10,
      waiting = [], m_placements = 1,
      m_trace = [OpenSet True, GetPlacement 0 10 30, FocusCall 30]\<rparr>"
  unfolding menu_disabled_opened_def menu_trigger_only_eq
  by (simp add: useMenu_def overlayElement_set_def menu_toggle_def m_open_set_def Let_def
      m_notify_def m_on_values_def m_detach_eq setupPlacement_def m_call_cleanup_def
      items_set_def getMenuItems_def run_cleanup_def m_tick_def disabled_panel_def)

section \<open>The placement lifecycle and teardown\<close>

text \<open>
  C1, as the code has it. The teardown of the trigger action calls, in this order,
  \<^verbatim>\<open>cleanup()\<close>, \<^verbatim>\<open>removeEvents()\<close>, \<^verbatim>\<open>unsubscribe()\<close> and \<^verbatim>\<open>hide()\<close>. On an instance with
  that one trigger action it therefore invokes the stored cleanup, leaves no listener and
  no subscribed callback, stops the show timer, and starts the hide timer, which is
  pending when the teardown returns (due after 500 ms when it was idle). From then on the
  only callback of the widget that runs is the hide timer's: time passing adds
  \<open>OpenSet False\<close> once the timer is due and nothing else, and nothing that does not call
  \<^verbatim>\<open>show\<close> or \<^verbatim>\<open>toggle\<close> sets \<^verbatim>\<open>open$\<close> to true.
\<close>

theorem destroy_starts_hide_timer:
  assumes "list_all (\<lambda>ev. \<not> calls_show ev) evs" and "t_triggers s = [e]"
  shows "useTooltipTrigger_destroy pol e s =
           s\<lparr>t_trace := t_trace s @ run_cleanup (t_cleanup s),
             t_triggers := [],
             showTimer := None,
             hideTimer := timer_start pol (t_clock s) 500 (hideTimer s)\<rparr> \<and>
         hideTimer (useTooltipTrigger_destroy pol e s) \<noteq> None \<and>
         (hideTimer s = None \<longrightarrow>
            hideTimer (useTooltipTrigger_destroy pol e s) = Some (t_clock s + 500)) \<and>
         t_new_obs (useTooltipTrigger_destroy pol e s)
             (advance dt (useTooltipTrigger_destroy pol e s)) =
           (if timer_due (t_clock s + dt) (hideTimer (useTooltipTrigger_destroy pol e s))
            then [OpenSet False] else []) \<and>
         open_commits (t_run pol cfg evs (useTooltipTrigger_destroy pol e s)) = open_commits s"
proof -
  let ?x = "useTooltipTrigger_destroy pol e s"
  have eq: "?x = s\<lparr>t_trace := t_trace s @ run_cleanup (t_cleanup s), t_triggers := [],
             showTimer := None, hideTimer := timer_start pol (t_clock s) 500 (hideTimer s)\<rparr>"
    using assms(2) by (simp add: destroy_eq)
  have idle: "showTimer ?x = None" and none: "t_triggers ?x = []" and clk: "t_clock ?x = t_clock s"
    by (simp_all add: eq)
  have pend: "hideTimer ?x \<noteq> None" by (simp add: eq timer_start_pending)
  have fresh: "hideTimer s = None \<longrightarrow> hideTimer ?x = Some (t_clock s + 500)"
    by (simp add: eq timer_start_def)
  have adv: "t_new_obs ?x (advance dt ?x) =
           (if timer_due (t_clock s + dt) (hideTimer ?x) then [OpenSet False] else [])"
    using advance_after_destroy [OF idle none, of dt] by (simp add: clk)
  have later: "open_commits (t_run pol cfg evs ?x) = open_commits s"
    using quiet_run [OF assms(1) idle, of pol cfg] by (simp add: useTooltipTrigger_destroy_quiet)
  from eq pend fresh adv later show ?thesis by (simp only: simp_thms)
qed

theorem destroy_starts_hide_timer_witness:
  "list_all (\<lambda>ev. \<not> calls_show ev) [Advance 500, OnTrigger 1 Click] \<and>
   t_triggers tip_open = [1] \<and> hideTimer tip_open = None \<and>
   hideTimer (useTooltipTrigger_destroy Replace 1 tip_open) = Some 500 \<and>
   t_new_obs (useTooltipTrigger_destroy Replace 1 tip_open)
     (advance 500 (useTooltipTrigger_destroy Replace 1 tip_open)) = [OpenSet False] \<and>
   open_commits (t_run Replace default_tooltip_config [Advance 500, OnTrigger 1 Click]
     (useTooltipTrigger_destroy Replace 1 tip_open)) = 1"
proof -
  have q: "list_all (\<lambda>ev. \<not> calls_show ev) [Advance 500, OnTrigger 1 Click]" by simp
  have t: "t_triggers tip_open = [1]" unfolding tip_open_eq by simp
  from destroy_starts_hide_timer [OF q t, of Replace 500 default_tooltip_config] q t
  show ?thesis
    unfolding tip_open_eq
    by (simp add: timer_due_def destroy_eq timer_start_def run_cleanup_def)
qed

text \<open>
  C1 as stated fails. The open tooltip \<open>tip_open\<close> is torn down: under either reading of
  \<^verbatim>\<open>start\<close> the hide timer is then pending, due at 500, not stopped; \<^verbatim>\<open>open$\<close> is still
  true; and 500 ms after the teardown returned the timer's callback runs and writes
  \<^verbatim>\<open>open$\<close>, which becomes false.
\<close>

theorem destroy_leaves_hide_timer_counterexample:
  "hideTimer (useTooltipTrigger_destroy Replace 1 tip_open) = Some 500 \<and>
   hideTimer (useTooltipTrigger_destroy Preserve 1 tip_open) = Some 500 \<and>
   t_open (useTooltipTrigger_destroy Replace 1 tip_open) = True \<and>
   t_triggers (useTooltipTrigger_destroy Replace 1 tip_open) = [] \<and>
   t_open (advance 500 (useTooltipTrigger_destroy Replace 1 tip_open)) = False \<and>
   t_trace (advance 500 (useTooltipTrigger_destroy Replace 1 tip_open)) =
     [OpenSet True, GetPlacement 0 1 2, CleanupCalled 0, OpenSet False]"
  unfolding tip_open_eq
  by (simp add: useTooltipTrigger_destroy_def t_call_cleanup_def run_cleanup_def Let_def
      tooltip_hide_def startHideTimer_def stopShowTimer_def timer_start_def advance_def
      timer_due_def fire_hide_def t_open_set_def t_notify_def show_first_def)

text \<open>
  C2, as the code has it. With one live trigger action: whenever a step of the tooltip
  takes the condition \<^verbatim>\<open>$open && $tooltipElement\<close> from true to false, the placement calls
  of that step are exactly one invocation of the stored cleanup, and the stored cleanup is
  still the same function afterwards: nothing puts \<^verbatim>\<open>noop\<close> back. The teardown of the
  trigger action invokes whatever is stored, once, and also leaves it stored. The same
  holds for the menu's \<^verbatim>\<open>hide\<close>, \<^verbatim>\<open>toggle\<close>, unmounting of the overlay and teardown of
  the trigger action, from a state where \<^verbatim>\<open>$open && $overlayElement\<close> holds.
\<close>

theorem detach_invokes_stored_cleanup:
  assumes "t_triggers s = [e]" and "t_combined s" and "\<not> t_combined (t_step pol cfg ev s)"
    and "m_triggers m = [e']" and "m_combined m"
  shows "filter is_placement (t_new_obs s (t_step pol cfg ev s)) = run_cleanup (t_cleanup s) \<and>
         t_cleanup (t_step pol cfg ev s) = t_cleanup s \<and>
         t_new_obs s (useTooltipTrigger_destroy pol e s) = run_cleanup (t_cleanup s) \<and>
         t_cleanup (useTooltipTrigger_destroy pol e s) = t_cleanup s \<and>
         \<not> m_combined (menu_hide rf m) \<and>
         filter is_placement (m_new_obs m (menu_hide rf m)) = run_cleanup (m_cleanup m) \<and>
         m_cleanup (menu_hide rf m) = m_cleanup m \<and>
         \<not> m_combined (menu_toggle m) \<and>
         filter is_placement (m_new_obs m (menu_toggle m)) = run_cleanup (m_cleanup m) \<and>
         m_cleanup (menu_toggle m) = m_cleanup m \<and>
         \<not> m_combined (useMenu_destroy ov m) \<and>
         filter is_placement (m_new_obs m (useMenu_destroy ov m)) = run_cleanup (m_cleanup m) \<and>
         m_cleanup (useMenu_destroy ov m) = m_cleanup m \<and>
         filter is_placement (m_new_obs m (useTrigger_destroy e' m)) = run_cleanup (m_cleanup m) \<and>
         m_cleanup (useTrigger_destroy e' m) = m_cleanup m"
proof -
  have d: "t_new_obs s (useTooltipTrigger_destroy pol e s) = run_cleanup (t_cleanup s) \<and>
         t_cleanup (useTooltipTrigger_destroy pol e s) = t_cleanup s"
    by (simp add: destroy_eq t_new_obs_def)
  from t_step_detach [OF assms(1-3)] d menu_hide_detach [OF assms(4,5), of rf]
    menu_toggle_detach [OF assms(4,5)] useMenu_destroy_detach [OF assms(4,5), of ov]
    useTrigger_destroy_single [OF assms(4)]
  show ?thesis by (simp only: simp_thms)
qed

theorem detach_invokes_stored_cleanup_witness:
  "t_triggers tip_open = [1] \<and> t_combined tip_open \<and>
   \<not> t_combined (t_step Replace default_tooltip_config Toggle tip_open) \<and>
   m_triggers menu_opened = [10] \<and> m_combined menu_opened \<and>
   filter is_placement (t_new_obs tip_open (t_step Replace default_tooltip_config Toggle tip_open))
     = [CleanupCalled 0] \<and>
   t_cleanup (t_step Replace default_tooltip_config Toggle tip_open) = PlacementCleanup 0 \<and>
   filter is_placement (m_new_obs menu_opened (menu_hide True menu_opened)) = [CleanupCalled 0] \<and>
   m_cleanup (menu_hide True menu_opened) = PlacementCleanup 0"
proof -
  have h1: "t_triggers tip_open = [1]" unfolding tip_open_eq by simp
  have h2: "t_combined tip_open" unfolding tip_open_eq by (simp add: t_combined_def)
  have h3: "\<not> t_combined (t_step Replace default_tooltip_config Toggle tip_open)"
    by (simp add: t_combined_def tooltip_toggle_def t_open_set_frame) (simp add: tip_open_eq)
  have h4: "m_triggers menu_opened = [10]" unfolding menu_opened_eq by simp
  have h5: "m_combined menu_opened" unfolding menu_opened_eq by (simp add: m_combined_def)
  have c1: "t_cleanup tip_open = PlacementCleanup 0" unfolding tip_open_eq by simp
  have c2: "m_cleanup menu_opened = PlacementCleanup 0" unfolding menu_opened_eq by simp
  from detach_invokes_stored_cleanup [OF h1 h2 h3 h4 h5, of True] h1 h2 h3 h4 h5
  show ?thesis by (simp add: c1 c2 run_cleanup_def)
qed

text \<open>
  C2 as stated fails. \<open>tip_open\<close> satisfies the condition, \<open>tip_closed\<close>, one \<^verbatim>\<open>toggle()\<close>
  later, does not; the cleanup returned by the first \<^verbatim>\<open>getPlacement\<close> call was invoked at
  that transition, yet it is still the stored handle, not \<^verbatim>\<open>noop\<close>, and the teardown that
  follows invokes it a second time.
\<close>

theorem cleanup_not_replaced_counterexample:
  "t_combined tip_open \<and> \<not> t_combined tip_closed \<and>
   t_cleanup tip_closed = PlacementCleanup 0 \<and> t_cleanup tip_closed \<noteq> Noop \<and>
   t_trace tip_closed = [OpenSet True, GetPlacement 0 1 2, OpenSet False, CleanupCalled 0] \<and>
   t_trace (useTooltipTrigger_destroy Replace 1 tip_closed) =
     [OpenSet True, GetPlacement 0 1 2, OpenSet False, CleanupCalled 0, CleanupCalled 0] \<and>
   count_list (t_trace (useTooltipTrigger_destroy Replace 1 tip_closed)) (CleanupCalled 0) = 2"
  unfolding tip_closed_eq tip_open_eq
  by (simp add: t_combined_def destroy_eq run_cleanup_def)

text \<open>
  C3, as the code has it. From a closed state with one live trigger action and the overlay
  mounted, \<open>n\<close> open/close cycles of \<^verbatim>\<open>toggle()\<close> make exactly \<open>n\<close> calls of
  \<^verbatim>\<open>getPlacement\<close>. Cycle \<open>i\<close> first invokes the stored cleanup (the one returned in cycle
  \<open>i - 1\<close>, for the second time, or whatever was stored before the first cycle), then
  attaches, then on closing invokes the new cleanup. So every returned cleanup is invoked
  before the next attach, but all except the last are invoked twice: starting from
  \<^verbatim>\<open>noop\<close> the cleanup invocations number \<open>2 * n - 1\<close>, not \<open>n\<close>. This holds for the
  tooltip and for the menu, whose waiting continuations run after each \<^verbatim>\<open>toggle()\<close>.
\<close>

theorem toggle_cycles_placement_calls:
  assumes "t_triggers s = [t]" and "\<not> t_open s" and "tooltipElement s = Some ov"
    and "m_triggers m = [t']" and "\<not> m_open m" and "overlayElement m = Some ov'"
  shows "filter is_placement (t_new_obs s (t_cycles n s)) =
           concat (map (cycle_obs t ov (t_cleanup s) (t_placements s)) [0..<n]) \<and>
         length (filter is_attach (t_new_obs s (t_cycles n s))) = n \<and>
         length (filter is_cleanup_call (t_new_obs s (t_cycles n s))) =
           2 * n - (if t_cleanup s = Noop then 1 else 0) \<and>
         filter is_placement (m_new_obs m (m_cycles n m)) =
           concat (map (cycle_obs t' (ov_id ov') (m_cleanup m) (m_placements m)) [0..<n]) \<and>
         length (filter is_attach (m_new_obs m (m_cycles n m))) = n \<and>
         length (filter is_cleanup_call (m_new_obs m (m_cycles n m))) =
           2 * n - (if m_cleanup m = Noop then 1 else 0)"
  using t_cycles_obs [OF assms(1-3), of n] t_cycles_counts [OF assms(1-3), of n]
    m_cycles_obs [OF assms(4-6), of n] m_cycles_counts [OF assms(4-6), of n]
  by (simp only: simp_thms)

theorem toggle_cycles_placement_calls_witness:
  "t_triggers tip_mounted = [1] \<and> \<not> t_open tip_mounted \<and> tooltipElement tip_mounted = Some 2 \<and>
   m_triggers menu_mounted = [10] \<and> \<not> m_open menu_mounted \<and>
   overlayElement menu_mounted = Some panel \<and>
   length (filter is_attach (t_new_obs tip_mounted (t_cycles 5 tip_mounted))) = 5 \<and>
   length (filter is_cleanup_call (t_new_obs tip_mounted (t_cycles 5 tip_mounted))) = 9 \<and>
   length (filter is_attach (m_new_obs menu_mounted (m_cycles 5 menu_mounted))) = 5 \<and>
   length (filter is_cleanup_call (m_new_obs menu_mounted (m_cycles 5 menu_mounted))) = 9"
proof -
  have h1: "t_triggers tip_mounted = [1]" and h2: "\<not> t_open tip_mounted"
    and h3: "tooltipElement tip_mounted = Some 2" and c1: "t_cleanup tip_mounted = Noop"
    unfolding tip_mounted_eq by simp_all
  have h4: "m_triggers menu_mounted = [10]" and h5: "\<not> m_open menu_mounted"
    and h6: "overlayElement menu_mounted = Some panel" and c2: "m_cleanup menu_mounted = Noop"
    unfolding menu_mounted_eq by simp_all
  from toggle_cycles_placement_calls [OF h1 h2 h3 h4 h5 h6, of 5] h1 h2 h3 h4 h5 h6
  show ?thesis by (simp add: c1 c2)
qed

text \<open>
  C3 as stated fails at \<open>n = 2\<close>: two cycles on \<open>tip_mounted\<close> call \<^verbatim>\<open>getPlacement\<close> twice
  and invoke returned cleanups three times, the first one twice.
\<close>

theorem two_cycles_three_cleanups_counterexample:
  "length (filter is_attach (t_new_obs tip_mounted (t_cycles 2 tip_mounted))) = 2 \<and>
   length (filter is_cleanup_call (t_new_obs tip_mounted (t_cycles 2 tip_mounted))) = 3 \<and>
   t_new_obs tip_mounted (t_cycles 2 tip_mounted) =
     [OpenSet True, GetPlacement 0 1 2, OpenSet False, CleanupCalled 0,
      OpenSet True, CleanupCalled 0, GetPlacement 1 1 2, OpenSet False, CleanupCalled 1]"
  unfolding tip_two_cycles_eq unfolding tip_mounted_eq
  by (simp add: t_new_obs_def)

section \<open>Menu: keyboard\<close>

lemma first_eligible_iff:
  "first_eligible xs = Some i \<longleftrightarrow>
     i < length xs \<and> \<not> skipPredicate (xs ! i) \<and> (\<forall>j<i. skipPredicate (xs ! j))"
proof (induction xs arbitrary: i)
  case Nil
  then show ?case by simp
next
  case (Cons x xs)
  show ?case
  proof (cases "skipPredicate x")
    case False
    then show ?thesis by (cases i) auto
  next
    case True
    show ?thesis
    proof (cases i)
      case 0
      with True show ?thesis by auto
    next
      case (Suc k)
      have "(\<forall>j<Suc k. skipPredicate ((x # xs) ! j)) \<longleftrightarrow> (\<forall>j<k. skipPredicate (xs ! j))"
        using True by (auto simp add: less_Suc_eq_0_disj)
      with True Suc Cons [of k] show ?thesis by auto
    qed
  qed
qed

lemma last_eligible_iff:
  "last_eligible xs = Some i \<longleftrightarrow>
     i < length xs \<and> \<not> skipPredicate (xs ! i) \<and>
     (\<forall>j. i < j \<and> j < length xs \<longrightarrow> skipPredicate (xs ! j))"
proof
  assume "last_eligible xs = Some i"
  then obtain k where k: "first_eligible (rev xs) = Some k" and i: "i = length xs - 1 - k"
    by (auto simp add: last_eligible_def)
  from k have kl: "k < length xs" and ks: "\<not> skipPredicate (rev xs ! k)"
    and kb: "\<forall>j<k. skipPredicate (rev xs ! j)"
    by (simp_all add: first_eligible_iff)
  from kl i have il: "i < length xs" by simp
  from kl ks i have "\<not> skipPredicate (xs ! i)" by (simp add: rev_nth)
  moreover have "skipPredicate (xs ! j)" if "i < j" "j < length xs" for j
  proof -
    let ?j' = "length xs - 1 - j"
    from that i kl have "?j' < k" by simp
    with kb have "skipPredicate (rev xs ! ?j')" by blast
    moreover from that have "rev xs ! ?j' = xs ! j" by (simp add: rev_nth)
    ultimately show ?thesis by simp
  qed
  ultimately show "i < length xs \<and> \<not> skipPredicate (xs ! i) \<and>
     (\<forall>j. i < j \<and> j < length xs \<longrightarrow> skipPredicate (xs ! j))"
    using il by blast
next
  assume a: "i < length xs \<and> \<not> skipPredicate (xs ! i) \<and>
     (\<forall>j. i < j \<and> j < length xs \<longrightarrow> skipPredicate (xs ! j))"
  then have a1: "i < length xs" and a2: "\<not> skipPredicate (xs ! i)"
    and a3: "\<And>j. i < j \<Longrightarrow> j < length xs \<Longrightarrow> skipPredicate (xs ! j)"
    by blast+
  let ?k = "length xs - 1 - i"
  from a1 have kl: "?k < length (rev xs)" by simp
  from a1 have "length xs - Suc ?k = i" by simp
  with a1 a2 have ks: "\<not> skipPredicate (rev xs ! ?k)" by (simp add: rev_nth)
  have kb: "skipPredicate (rev xs ! j)" if "j < ?k" for j
  proof -
    from that a1 have "i < length xs - Suc j" "length xs - Suc j < length xs" "j < length xs"
      by simp_all
    with a3 [of "length xs - Suc j"] show ?thesis by (simp add: rev_nth)
  qed
  from kl ks kb have "first_eligible (rev xs) = Some ?k"
    by (simp add: first_eligible_iff)
  then show "last_eligible xs = Some i" using a1 by (simp add: last_eligible_def)
qed

lemma m_on_values_frame:
  "m_open (m_on_values e s) = m_open s"
  "overlayElement (m_on_values e s) = overlayElement s"
  "m_triggers (m_on_values e s) = m_triggers s"
  "m_overlays (m_on_values e s) = m_overlays s"
  "waiting (m_on_values e s) = waiting s"
  "documentTrigger (m_on_values e s) = documentTrigger s"
  "km_subscribed (m_on_values e s) = km_subscribed s"
  by (simp_all add: m_on_values_def m_detach_eq setupPlacement_def m_call_cleanup_def
      items_set_def Let_def split: option.split)

lemma m_on_values_trace:
  "\<exists>ys. m_trace (m_on_values e s) = m_trace s @ ys \<and> filter is_focus ys = []"
  by (cases "m_cleanup s")
    (simp_all add: m_on_values_def m_detach_eq setupPlacement_def m_call_cleanup_def
      items_set_def Let_def run_cleanup_def split: option.split)

lemma fold_m_on_values:
  "m_open (fold m_on_values es s) = m_open s \<and>
   overlayElement (fold m_on_values es s) = overlayElement s \<and>
   m_triggers (fold m_on_values es s) = m_triggers s \<and>
   m_overlays (fold m_on_values es s) = m_overlays s \<and>
   waiting (fold m_on_values es s) = waiting s \<and>
   documentTrigger (fold m_on_values es s) = documentTrigger s \<and>
   km_subscribed (fold m_on_values es s) = km_subscribed s \<and>
   (\<exists>ys. m_trace (fold m_on_values es s) = m_trace s @ ys \<and> filter is_focus ys = [])"
proof (induction es arbitrary: s)
  case Nil
  then show ?case by simp
next
  case (Cons e es)
  from m_on_values_trace [of e s] obtain ys where
    a: "m_trace (m_on_values e s) = m_trace s @ ys" "filter is_focus ys = []" by blast
  from Cons [of "m_on_values e s"] obtain zs where
    b: "m_trace (fold m_on_values es (m_on_values e s)) = m_trace (m_on_values e s) @ zs"
       "filter is_focus zs = []" by blast
  from a b have "m_trace (fold m_on_values (e # es) s) = m_trace s @ (ys @ zs) \<and>
      filter is_focus (ys @ zs) = []" by simp
  then have "\<exists>ws. m_trace (fold m_on_values (e # es) s) = m_trace s @ ws \<and>
      filter is_focus ws = []" by blast
  with Cons [of "m_on_values e s"] show ?case by (simp add: m_on_values_frame)
qed

lemma m_notify_frame:
  "m_open (m_notify s) = m_open s"
  "overlayElement (m_notify s) = overlayElement s"
  "m_triggers (m_notify s) = m_triggers s"
  "m_overlays (m_notify s) = m_overlays s"
  "waiting (m_notify s) = waiting s"
  "documentTrigger (m_notify s) = documentTrigger s"
  "km_subscribed (m_notify s) = km_subscribed s"
  using fold_m_on_values [of "m_triggers s" s] by (simp_all add: m_notify_def)

lemma m_notify_trace:
  "\<exists>ys. m_trace (m_notify s) = m_trace s @ ys \<and> filter is_focus ys = []"
  using fold_m_on_values [of "m_triggers s" s] by (simp add: m_notify_def)

lemma m_open_set_frame:
  "m_open (m_open_set v s) = v"
  "overlayElement (m_open_set v s) = overlayElement s"
  "m_triggers (m_open_set v s) = m_triggers s"
  "m_overlays (m_open_set v s) = m_overlays s"
  "waiting (m_open_set v s) = (if v then waiting s @ [FocusOverlay] else waiting s)"
  "documentTrigger (m_open_set v s) = documentTrigger s"
  "km_subscribed (m_open_set v s) = km_subscribed s"
  by (auto simp add: m_open_set_def Let_def m_notify_frame)

lemma m_open_set_trace:
  "\<exists>ys. m_trace (m_open_set v s) = m_trace s @ ys \<and> filter is_focus ys = []"
proof (cases "m_open s = v")
  case True
  then show ?thesis by (simp add: m_open_set_def Let_def)
next
  case False
  let ?x = "(if v then s\<lparr>m_trace := m_trace s @ [OpenSet v], waiting := waiting s @ [FocusOverlay]\<rparr>
             else s\<lparr>m_trace := m_trace s @ [OpenSet v]\<rparr>)\<lparr>m_open := v\<rparr>"
  from m_notify_trace [of ?x] obtain ys where
    "m_trace (m_notify ?x) = m_trace ?x @ ys" "filter is_focus ys = []" by blast
  with False have "m_trace (m_open_set v s) = m_trace s @ (OpenSet v # ys) \<and>
      filter is_focus (OpenSet v # ys) = []"
    by (cases v) (simp_all add: m_open_set_def Let_def)
  then show ?thesis by blast
qed

lemma menu_hide_focus:
  "m_open (menu_hide rf s) = False"
  "waiting (menu_hide rf s) = waiting s"
  "filter is_focus (m_new_obs s (menu_hide rf s)) =
     (if rf then (case getTrigger s of None \<Rightarrow> [] | Some t \<Rightarrow> [FocusCall t]) else [])"
  "rf \<Longrightarrow> getTrigger s = Some t \<Longrightarrow> last (m_trace (menu_hide rf s)) = FocusCall t"
proof -
  from m_open_set_trace [of False s] obtain ys where
    ys: "m_trace (m_open_set False s) = m_trace s @ ys" "filter is_focus ys = []" by blast
  show "m_open (menu_hide rf s) = False"
    by (simp add: menu_hide_def Let_def m_open_set_frame split: option.split)
  show "waiting (menu_hide rf s) = waiting s"
    by (simp add: menu_hide_def Let_def m_open_set_frame split: option.split)
  show "filter is_focus (m_new_obs s (menu_hide rf s)) =
     (if rf then (case getTrigger s of None \<Rightarrow> [] | Some t \<Rightarrow> [FocusCall t]) else [])"
    by (simp add: menu_hide_def Let_def m_new_obs_def getTrigger_def m_open_set_frame ys
        split: option.split)
  show "rf \<Longrightarrow> getTrigger s = Some t \<Longrightarrow> last (m_trace (menu_hide rf s)) = FocusCall t"
    by (simp add: menu_hide_def Let_def getTrigger_def m_open_set_frame)
qed

text \<open>
  C8. Let the overlay and the trigger each carry one live action, and let the document hold
  an element \<open>t\<close> under the menu's id (the trigger, which \<^verbatim>\<open>triggerAttrs\<close> gives that id).
  An \<^verbatim>\<open>Escape\<close> keydown on the overlay sets \<^verbatim>\<open>open$\<close> to false and then calls
  \<^verbatim>\<open>focus()\<close> on \<open>t\<close>: that call is the only focus call of the handler and its last action.
  An \<^verbatim>\<open>Escape\<close> keydown on the trigger sets \<^verbatim>\<open>open$\<close> to false and makes no focus call.
  Neither leaves a continuation waiting.
\<close>

theorem escape_closes_menu:
  assumes "ov \<in> set (m_overlays s)" and "distinct (m_overlays s)"
    and "e \<in> set (m_triggers s)" and "distinct (m_triggers s)"
    and "getTrigger s = Some t"
  shows "m_open (m_dispatch_overlay_keydown onKeydown ov ESCAPE s) = False \<and>
         filter is_focus (m_new_obs s (m_dispatch_overlay_keydown onKeydown ov ESCAPE s)) =
           [FocusCall t] \<and>
         last (m_trace (m_dispatch_overlay_keydown onKeydown ov ESCAPE s)) = FocusCall t \<and>
         waiting (m_dispatch_overlay_keydown onKeydown ov ESCAPE s) = waiting s \<and>
         m_open (m_dispatch_trigger e (TriggerKeyDown ESCAPE) s) = False \<and>
         filter is_focus (m_new_obs s (m_dispatch_trigger e (TriggerKeyDown ESCAPE) s)) = [] \<and>
         waiting (m_dispatch_trigger e (TriggerKeyDown ESCAPE) s) = waiting s"
proof -
  from assms(1,2) have o: "filter (\<lambda>x. x = ov) (m_overlays s) = [ov]"
    by (simp add: filter_eq_single)
  from assms(3,4) have t: "filter (\<lambda>x. x = e) (m_triggers s) = [e]"
    by (simp add: filter_eq_single)
  have a: "m_dispatch_overlay_keydown onKeydown ov ESCAPE s = menu_hide True s"
    by (simp add: m_dispatch_overlay_keydown_def o useMenu_handleKeyDown_def)
  have b: "m_dispatch_trigger e (TriggerKeyDown ESCAPE) s = menu_hide False s"
    by (simp add: m_dispatch_trigger_def t m_trigger_listener_def useTrigger_handleKeyDown_def)
  show ?thesis
    unfolding a b using assms(5) by (simp add: menu_hide_focus)
qed

theorem escape_closes_menu_witness:
  "20 \<in> set (m_overlays menu_opened) \<and> distinct (m_overlays menu_opened) \<and>
   10 \<in> set (m_triggers menu_opened) \<and> distinct (m_triggers menu_opened) \<and>
   getTrigger menu_opened = Some 10 \<and> m_open menu_opened \<and>
   m_open (m_dispatch_overlay_keydown (\<lambda>k s. s) 20 ESCAPE menu_opened) = False \<and>
   filter is_focus (m_new_obs menu_opened
      (m_dispatch_overlay_keydown (\<lambda>k s. s) 20 ESCAPE menu_opened)) = [FocusCall 10] \<and>
   m_open (m_dispatch_trigger 10 (TriggerKeyDown ESCAPE) menu_opened) = False \<and>
   filter is_focus (m_new_obs menu_opened
      (m_dispatch_trigger 10 (TriggerKeyDown ESCAPE) menu_opened)) = []"
proof -
  have h: "20 \<in> set (m_overlays menu_opened)" "distinct (m_overlays menu_opened)"
    "10 \<in> set (m_triggers menu_opened)" "distinct (m_triggers menu_opened)"
    "getTrigger menu_opened = Some 10" and o: "m_open menu_opened"
    unfolding menu_opened_eq by (simp_all add: getTrigger_def)
  from escape_closes_menu [OF h, of "\<lambda>k s. s"] h o show ?thesis by simp
qed

lemma tick_ends_with_first:
  assumes "waiting x = ws @ [ActivateFirst]" and "first_eligible (km_items x) = Some i"
  shows "km_active (m_tick x) = Some i \<and>
         last (m_trace (m_tick x)) = FocusCall (item_id (km_items x ! i)) \<and>
         m_open (m_tick x) = m_open x"
proof -
  let ?y = "fold run_task ws (x\<lparr>waiting := []\<rparr>)"
  have k: "km_items ?y = km_items x"
    using fold_run_task_frame [of ws "x\<lparr>waiting := []\<rparr>"] by simp
  have "m_tick x = setFirstItemActive ?y" by (simp add: m_tick_def assms(1))
  then have "km_active (m_tick x) = Some i \<and>
         last (m_trace (m_tick x)) = FocusCall (item_id (km_items x ! i))"
    by (simp add: setFirstItemActive_def k assms(2) activate_frame)
  then show ?thesis by (simp add: m_tick_frame)
qed

lemma tick_ends_with_last:
  assumes "waiting x = ws @ [ActivateLast]" and "last_eligible (km_items x) = Some i"
  shows "km_active (m_tick x) = Some i \<and>
         last (m_trace (m_tick x)) = FocusCall (item_id (km_items x ! i)) \<and>
         m_open (m_tick x) = m_open x"
proof -
  let ?y = "fold run_task ws (x\<lparr>waiting := []\<rparr>)"
  have k: "km_items ?y = km_items x"
    using fold_run_task_frame [of ws "x\<lparr>waiting := []\<rparr>"] by simp
  have "m_tick x = setLastItemActive ?y" by (simp add: m_tick_def assms(1))
  then have "km_active (m_tick x) = Some i \<and>
         last (m_trace (m_tick x)) = FocusCall (item_id (km_items x ! i))"
    by (simp add: setLastItemActive_def k assms(2) activate_frame)
  then show ?thesis by (simp add: m_tick_frame)
qed

lemma arrow_dispatch:
  assumes "m_triggers s = [t]"
  shows "m_dispatch_trigger t (TriggerKeyDown DOWN_ARROW) s =
           (m_open_set True s)\<lparr>waiting := waiting (m_open_set True s) @ [ActivateFirst]\<rparr>"
    and "m_dispatch_trigger t (TriggerKeyDown UP_ARROW) s =
           (m_open_set True s)\<lparr>waiting := waiting (m_open_set True s) @ [ActivateLast]\<rparr>"
  using assms
  by (simp_all add: m_dispatch_trigger_def m_trigger_listener_def useTrigger_handleKeyDown_def
      openMenuWithArrow_def Let_def)



lemma none_eligible:
  assumes "list_all skipPredicate xs"
  shows "first_eligible xs = None" and "last_eligible xs = None"
proof -
  have a: "list_all skipPredicate ys \<Longrightarrow> first_eligible ys = None" for ys
    by (induction ys) simp_all
  from assms show "first_eligible xs = None" by (rule a)
  from assms have "list_all skipPredicate (rev xs)" by (simp add: list_all_iff)
  then show "last_eligible xs = None" by (simp add: last_eligible_def a)
qed

lemma eligible_or_none:
  "list_all skipPredicate xs \<or>
   (\<exists>i k. first_eligible xs = Some i \<and> last_eligible xs = Some k)"
proof (cases "list_all skipPredicate xs")
  case True then show ?thesis by simp
next
  case False
  have a: "\<not> list_all skipPredicate ys \<Longrightarrow> \<exists>i. first_eligible ys = Some i" for ys
    by (induction ys) auto
  from False have "\<not> list_all skipPredicate (rev xs)" by (simp add: list_all_iff)
  with a [of "rev xs"] a [OF False] show ?thesis by (auto simp add: last_eligible_def)
qed

lemma run_task_none_eligible:
  "list_all skipPredicate (km_items s) \<Longrightarrow> km_active (run_task k s) = km_active s"
  by (cases k)
    (simp_all add: setFirstItemActive_def setLastItemActive_def none_eligible activate_def
      split: option.split)

lemma fold_run_task_none_eligible:
  "list_all skipPredicate (km_items s) \<Longrightarrow> km_active (fold run_task ks s) = km_active s"
proof (induction ks arbitrary: s)
  case Nil then show ?case by simp
next
  case (Cons k ks)
  from Cons.prems have "list_all skipPredicate (km_items (run_task k s))"
    by (simp add: run_task_frame)
  from Cons.IH [OF this] Cons.prems show ?case by (simp add: run_task_none_eligible)
qed

lemma tick_none_eligible:
  "list_all skipPredicate (km_items s) \<Longrightarrow> km_active (m_tick s) = km_active s"
  using fold_run_task_none_eligible [of "s\<lparr>waiting := []\<rparr>" "waiting s"]
  by (simp add: m_tick_def)










lemma arrow_on_open:
  assumes "m_open s" and "m_triggers s = [t]"
  shows "m_dispatch_trigger t (TriggerKeyDown DOWN_ARROW) s =
           s\<lparr>waiting := waiting s @ [FocusOverlay, ActivateFirst],
             m_trace := m_trace s @ [OpenSet True]\<rparr>"
    and "m_dispatch_trigger t (TriggerKeyDown UP_ARROW) s =
           s\<lparr>waiting := waiting s @ [FocusOverlay, ActivateLast],
             m_trace := m_trace s @ [OpenSet True]\<rparr>"
  using assms by (simp_all add: arrow_dispatch m_open_again_eq)

lemma toggle_dispatch:
  assumes "m_triggers s = [t]"
  shows "m_dispatch_trigger t (TriggerKeyDown ENTER) s = menu_toggle s"
    and "m_dispatch_trigger t (TriggerKeyDown SPACE) s = menu_toggle s"
    and "m_dispatch_trigger t TriggerClick s = menu_toggle s"
  using assms
  by (simp_all add: m_dispatch_trigger_def m_trigger_listener_def useTrigger_handleKeyDown_def)

text \<open>
  C10. Let the menu be open with one live trigger action, in any state of its items. An
  \<^verbatim>\<open>ArrowDown\<close> or \<^verbatim>\<open>ArrowUp\<close> keydown on the trigger only records \<^verbatim>\<open>open$.set(true)\<close> and
  leaves continuations waiting: the state is otherwise unchanged, so the menu stays open
  and no subscriber runs, and it is still open after \<^verbatim>\<open>tick()\<close>. With \<open>i\<close> and \<open>k\<close> the
  indices of the first and the last item of the key manager's list that the skip predicate
  does not exclude, the active item after \<^verbatim>\<open>tick()\<close> is item \<open>i\<close>, respectively item
  \<open>k\<close>, focused last; when the list has no such item (\<open>eligible_or_none\<close>: these are all
  the cases) the active item is left as it was. \<^verbatim>\<open>Enter\<close>, \<^verbatim>\<open>Space\<close> and a click on the
  trigger close the open menu.
\<close>

theorem arrow_never_closes_open_menu:
  assumes "m_open s" and "m_triggers s = [t]"
  shows "m_dispatch_trigger t (TriggerKeyDown DOWN_ARROW) s =
           s\<lparr>waiting := waiting (m_dispatch_trigger t (TriggerKeyDown DOWN_ARROW) s),
             m_trace := m_trace s @ [OpenSet True]\<rparr> \<and>
         m_dispatch_trigger t (TriggerKeyDown UP_ARROW) s =
           s\<lparr>waiting := waiting (m_dispatch_trigger t (TriggerKeyDown UP_ARROW) s),
             m_trace := m_trace s @ [OpenSet True]\<rparr> \<and>
         m_open (m_dispatch_trigger t (TriggerKeyDown DOWN_ARROW) s) \<and>
         m_open (m_dispatch_trigger t (TriggerKeyDown UP_ARROW) s) \<and>
         m_open (m_tick (m_dispatch_trigger t (TriggerKeyDown DOWN_ARROW) s)) \<and>
         m_open (m_tick (m_dispatch_trigger t (TriggerKeyDown UP_ARROW) s)) \<and>
         (i < length (km_items s) \<and> \<not> skipPredicate (km_items s ! i) \<and>
          (\<forall>j<i. skipPredicate (km_items s ! j)) \<longrightarrow>
            km_active (m_tick (m_dispatch_trigger t (TriggerKeyDown DOWN_ARROW) s)) = Some i \<and>
            last (m_trace (m_tick (m_dispatch_trigger t (TriggerKeyDown DOWN_ARROW) s))) =
              FocusCall (item_id (km_items s ! i))) \<and>
         (k < length (km_items s) \<and> \<not> skipPredicate (km_items s ! k) \<and>
          (\<forall>j. k < j \<and> j < length (km_items s) \<longrightarrow> skipPredicate (km_items s ! j)) \<longrightarrow>
            km_active (m_tick (m_dispatch_trigger t (TriggerKeyDown UP_ARROW) s)) = Some k \<and>
            last (m_trace (m_tick (m_dispatch_trigger t (TriggerKeyDown UP_ARROW) s))) =
              FocusCall (item_id (km_items s ! k))) \<and>
         (list_all skipPredicate (km_items s) \<longrightarrow>
            km_active (m_tick (m_dispatch_trigger t (TriggerKeyDown DOWN_ARROW) s)) = km_active s \<and>
            km_active (m_tick (m_dispatch_trigger t (TriggerKeyDown UP_ARROW) s)) = km_active s) \<and>
         \<not> m_open (m_dispatch_trigger t (TriggerKeyDown ENTER) s) \<and>
         \<not> m_open (m_dispatch_trigger t (TriggerKeyDown SPACE) s) \<and>
         \<not> m_open (m_dispatch_trigger t TriggerClick s)"
proof -
  let ?d = "m_dispatch_trigger t (TriggerKeyDown DOWN_ARROW) s"
  let ?u = "m_dispatch_trigger t (TriggerKeyDown UP_ARROW) s"
  note eq = arrow_on_open [OF assms]
  have d: "?d = s\<lparr>waiting := waiting ?d, m_trace := m_trace s @ [OpenSet True]\<rparr>"
    by (simp add: eq)
  have u: "?u = s\<lparr>waiting := waiting ?u, m_trace := m_trace s @ [OpenSet True]\<rparr>"
    by (simp add: eq)
  have op: "m_open ?d" "m_open ?u" "m_open (m_tick ?d)" "m_open (m_tick ?u)"
    using assms(1) by (simp_all add: m_tick_frame) (simp_all add: eq)
  have ki: "km_items ?d = km_items s" "km_items ?u = km_items s"
    "km_active ?d = km_active s" "km_active ?u = km_active s"
    by (simp_all add: eq)
  have w1: "waiting ?d = (waiting s @ [FocusOverlay]) @ [ActivateFirst]" by (simp add: eq)
  have w2: "waiting ?u = (waiting s @ [FocusOverlay]) @ [ActivateLast]" by (simp add: eq)
  have a: "km_active (m_tick ?d) = Some i \<and>
           last (m_trace (m_tick ?d)) = FocusCall (item_id (km_items s ! i))"
    if "i < length (km_items s)" "\<not> skipPredicate (km_items s ! i)"
      "\<forall>j<i. skipPredicate (km_items s ! j)"
  proof -
    from that have "first_eligible (km_items ?d) = Some i"
      by (simp add: ki first_eligible_iff)
    from tick_ends_with_first [OF w1 this] show ?thesis by (simp add: ki)
  qed
  have b: "km_active (m_tick ?u) = Some k \<and>
           last (m_trace (m_tick ?u)) = FocusCall (item_id (km_items s ! k))"
    if "k < length (km_items s)" "\<not> skipPredicate (km_items s ! k)"
      "\<forall>j. k < j \<and> j < length (km_items s) \<longrightarrow> skipPredicate (km_items s ! j)"
  proof -
    from that have "last_eligible (km_items ?u) = Some k"
      by (simp add: ki last_eligible_iff)
    from tick_ends_with_last [OF w2 this] show ?thesis by (simp add: ki)
  qed
  have n: "km_active (m_tick ?d) = km_active s \<and> km_active (m_tick ?u) = km_active s"
    if "list_all skipPredicate (km_items s)"
    using tick_none_eligible [of ?d] tick_none_eligible [of ?u] that by (simp add: ki)
  have c: "\<not> m_open (menu_toggle s)"
    using assms(1) by (simp add: menu_toggle_def m_open_set_frame)
  have e: "\<not> m_open (m_dispatch_trigger t (TriggerKeyDown ENTER) s) \<and>
         \<not> m_open (m_dispatch_trigger t (TriggerKeyDown SPACE) s) \<and>
         \<not> m_open (m_dispatch_trigger t TriggerClick s)"
    using c by (simp add: toggle_dispatch [OF assms(2)])
  from d u op a b n e show ?thesis by blast
qed

theorem arrow_never_closes_open_menu_witness:
  "m_open menu_opened \<and> m_triggers menu_opened = [10] \<and>
   first_eligible (km_items menu_opened) = Some 1 \<and>
   last_eligible (km_items menu_opened) = Some 2 \<and>
   m_open (m_tick (m_dispatch_trigger 10 (TriggerKeyDown DOWN_ARROW) menu_opened)) \<and>
   km_active (m_tick (m_dispatch_trigger 10 (TriggerKeyDown DOWN_ARROW) menu_opened)) = Some 1 \<and>
   km_active (m_tick (m_dispatch_trigger 10 (TriggerKeyDown UP_ARROW) menu_opened)) = Some 2 \<and>
   \<not> m_open (m_dispatch_trigger 10 (TriggerKeyDown ENTER) menu_opened) \<and>
   \<not> m_open (m_dispatch_trigger 10 TriggerClick menu_opened) \<and>
   m_open menu_disabled_opened \<and> m_triggers menu_disabled_opened = [10] \<and>
   list_all skipPredicate (km_items menu_disabled_opened) \<and>
   m_open (m_tick (m_dispatch_trigger 10 (TriggerKeyDown DOWN_ARROW) menu_disabled_opened)) \<and>
   km_active (m_tick (m_dispatch_trigger 10 (TriggerKeyDown DOWN_ARROW) menu_disabled_opened)) = None \<and>
   km_active (m_tick (m_dispatch_trigger 10 (TriggerKeyDown UP_ARROW) menu_disabled_opened)) = None \<and>
   \<not> m_open (m_dispatch_trigger 10 (TriggerKeyDown SPACE) menu_disabled_opened)"
proof -
  have ki: "km_items menu_opened = four_items" unfolding menu_opened_eq by simp
  have h: "m_open menu_opened" "m_triggers menu_opened = [10]"
    unfolding menu_opened_eq by simp_all
  have g: "m_open menu_disabled_opened" "m_triggers menu_disabled_opened = [10]"
    and ka: "km_active menu_disabled_opened = None"
    unfolding menu_disabled_opened_eq by simp_all
  have ga: "list_all skipPredicate (km_items menu_disabled_opened)"
    unfolding menu_disabled_opened_eq by (simp add: skipPredicate_def)
  have fe: "first_eligible (km_items menu_opened) = Some 1"
    and le: "last_eligible (km_items menu_opened) = Some 2"
    unfolding ki by (simp_all add: four_items_def skipPredicate_def last_eligible_def)
  from fe have f: "1 < length (km_items menu_opened)" "\<not> skipPredicate (km_items menu_opened ! 1)"
    "\<forall>j<1. skipPredicate (km_items menu_opened ! j)"
    unfolding first_eligible_iff by blast+
  from le have l: "2 < length (km_items menu_opened)" "\<not> skipPredicate (km_items menu_opened ! 2)"
    "\<forall>j. 2 < j \<and> j < length (km_items menu_opened) \<longrightarrow> skipPredicate (km_items menu_opened ! j)"
    unfolding last_eligible_iff by blast+
  note a = arrow_never_closes_open_menu [OF h, where i = 1 and k = 2,
      THEN conjunct2, THEN conjunct2]
  note b = arrow_never_closes_open_menu [OF g, where i = 0 and k = 0,
      THEN conjunct2, THEN conjunct2]
  from a f l have x:
    "m_open (m_tick (m_dispatch_trigger 10 (TriggerKeyDown DOWN_ARROW) menu_opened)) \<and>
     km_active (m_tick (m_dispatch_trigger 10 (TriggerKeyDown DOWN_ARROW) menu_opened)) = Some 1 \<and>
     km_active (m_tick (m_dispatch_trigger 10 (TriggerKeyDown UP_ARROW) menu_opened)) = Some 2 \<and>
     \<not> m_open (m_dispatch_trigger 10 (TriggerKeyDown ENTER) menu_opened) \<and>
     \<not> m_open (m_dispatch_trigger 10 TriggerClick menu_opened)"
    by blast
  from b ga have
    "m_open (m_tick (m_dispatch_trigger 10 (TriggerKeyDown DOWN_ARROW) menu_disabled_opened)) \<and>
     km_active (m_tick (m_dispatch_trigger 10 (TriggerKeyDown DOWN_ARROW) menu_disabled_opened)) =
       km_active menu_disabled_opened \<and>
     km_active (m_tick (m_dispatch_trigger 10 (TriggerKeyDown UP_ARROW) menu_disabled_opened)) =
       km_active menu_disabled_opened \<and>
     \<not> m_open (m_dispatch_trigger 10 (TriggerKeyDown SPACE) menu_disabled_opened)"
    by blast
  then have y:
    "m_open (m_tick (m_dispatch_trigger 10 (TriggerKeyDown DOWN_ARROW) menu_disabled_opened)) \<and>
     km_active (m_tick (m_dispatch_trigger 10 (TriggerKeyDown DOWN_ARROW) menu_disabled_opened)) = None \<and>
     km_active (m_tick (m_dispatch_trigger 10 (TriggerKeyDown UP_ARROW) menu_disabled_opened)) = None \<and>
     \<not> m_open (m_dispatch_trigger 10 (TriggerKeyDown SPACE) menu_disabled_opened)"
    by (simp add: ka)
  from h fe le x g ga y show ?thesis by (simp only: simp_thms)
qed

section \<open>The returned objects\<close>

text \<open>
  C7, as the code has it. The object returned by \<^verbatim>\<open>createTooltip\<close> has the properties
  \<^verbatim>\<open>open\<close>, \<^verbatim>\<open>show\<close>, \<^verbatim>\<open>hide\<close> and \<^verbatim>\<open>toggle\<close>. The object returned by \<^verbatim>\<open>createMenu\<close> has
  \<^verbatim>\<open>open\<close> and none of \<^verbatim>\<open>show\<close>, \<^verbatim>\<open>hide\<close>, \<^verbatim>\<open>toggle\<close>: the menu's \<^verbatim>\<open>hide\<close> and \<^verbatim>\<open>toggle\<close>
  stay inside the closure, and it has no \<^verbatim>\<open>show\<close> at all.
\<close>

theorem returned_surface:
  "''open'' \<in> set createTooltip_returns \<and> ''show'' \<in> set createTooltip_returns \<and>
   ''hide'' \<in> set createTooltip_returns \<and> ''toggle'' \<in> set createTooltip_returns \<and>
   ''open'' \<in> set createMenu_returns \<and> ''show'' \<notin> set createMenu_returns \<and>
   ''hide'' \<notin> set createMenu_returns \<and> ''toggle'' \<notin> set createMenu_returns"
  by (simp add: createTooltip_returns_def createMenu_returns_def)

text \<open>
  C7 as stated fails for the menu: its returned object has no \<^verbatim>\<open>show\<close>, \<^verbatim>\<open>hide\<close> or
  \<^verbatim>\<open>toggle\<close> property.
\<close>

theorem menu_exposes_no_show_counterexample:
  "\<not> (''open'' \<in> set createMenu_returns \<and> ''show'' \<in> set createMenu_returns \<and>
      ''hide'' \<in> set createMenu_returns \<and> ''toggle'' \<in> set createMenu_returns)"
  by (simp add: createMenu_returns_def)

end
